theory Spec2Isabelle
  imports Main "HOL-Library.FSet" "HOL-Library.List_Lexorder" "HOL-Library.Char_ord"
    "HOL-Library.Sublist"
begin

section \<open>Data model of \<^verbatim>\<open>tools/batools/appmodule.py\<close>\<close>

text \<open>
  Modelled from the spec: the class \<^verbatim>\<open>FeatureSet\<close> lives in
  \<^verbatim>\<open>batools.featureset\<close>, which \<^verbatim>\<open>appmodule.py\<close> only imports for type checking.
  The record holds exactly the attributes that \<^verbatim>\<open>appmodule.py\<close> reads. The two
  attributes that the code iterates over are sets of names (spec, section 3: "set of names
  of components it requires"), so they are finite sets of strings; the others are strings
  and flags.

  Python compares \<^verbatim>\<open>str\<close> values lexicographically by code point; this is the order
  that \<^verbatim>\<open>HOL-Library.List_Lexorder\<close> and \<^verbatim>\<open>HOL-Library.Char_ord\<close> put on
  \<^typ>\<open>string\<close>, whose characters are the code points below 256 (feature-set names are
  identifiers).
\<close>

record FeatureSet =
  name :: string
  name_python_package :: string
  name_camel :: string
  has_python_app_subsystem :: bool
  python_app_subsystem_dependencies :: "string fset"
  soft_requirements :: "string fset"
  allow_as_soft_requirement :: bool

text \<open>
  A \<^verbatim>\<open>dict[str, FeatureSet]\<close> is an association list in insertion order;
  a dict has no key twice, so the lists of interest satisfy \<open>distinct (map fst d)\<close>.
  \<^verbatim>\<open>d.get(k)\<close> is \<^const>\<open>map_of\<close>, \<^verbatim>\<open>k in d\<close> is membership in the keys.
\<close>

type_synonym fsdict = "(string \<times> FeatureSet) list"

definition keys :: "fsdict \<Rightarrow> string set" where
  "keys d = fst ` set d"

text \<open>
  The exceptions the module can raise itself: the \<^verbatim>\<open>RuntimeError\<close> of
  \<^verbatim>\<open>_add_init\<close> with its message, the failing \<^verbatim>\<open>assert\<close>, and the
  \<^verbatim>\<open>KeyError\<close> of a subscript \<^verbatim>\<open>fsets[fsetname]\<close>. \<open>External\<close> stands for whatever
  an external collaborator (\<^verbatim>\<open>efrotools.replace_section\<close>) raises.
\<close>

datatype error = RuntimeError string | AssertionError | KeyError string | External string

datatype outcome = Returned | Raised error

section \<open>\<^verbatim>\<open>_add_init\<close>\<close>

text \<open>
  The message of the \<^verbatim>\<open>RuntimeError\<close>:
  \<^verbatim>\<open>'App subsystem dependency cycle detected' f" (involving feature set '{fset.name}')."\<close>
\<close>

definition cycle_message :: "string \<Rightarrow> string" where
  "cycle_message n =
     ''App subsystem dependency cycle detected'' @
     '' (involving feature set '' @ [CHR 0x27] @ n @ [CHR 0x27] @ '').''"

text \<open>
  \<^verbatim>\<open>_add_init(fset, allsets, init_order, depth)\<close> mutates the list \<^verbatim>\<open>init_order\<close>
  that its caller owns, and the caller still holds that list when an exception passes
  through. So the model returns the list together with the outcome, on both paths.
  \<open>add_init_deps\<close> is the \<^verbatim>\<open>for depname in sorted(...)\<close> loop of \<^verbatim>\<open>_add_init\<close>, running on
  the names that are left; \<^verbatim>\<open>continue\<close> is the \<open>None\<close> branch.
\<close>

function add_init :: "FeatureSet \<Rightarrow> fsdict \<Rightarrow> string list \<Rightarrow> int \<Rightarrow> outcome \<times> string list"
  and add_init_deps :: "string list \<Rightarrow> fsdict \<Rightarrow> string list \<Rightarrow> int \<Rightarrow> outcome \<times> string list"
where
  "add_init fs allsets init_order depth =
     (if depth > 10 then (Raised (RuntimeError (cycle_message (name fs))), init_order)
      else if name fs \<in> set init_order then (Returned, init_order)
      else (case add_init_deps (sorted_list_of_fset (python_app_subsystem_dependencies fs))
                   allsets init_order depth of
              (Raised e, init_order1) \<Rightarrow> (Raised e, init_order1)
            | (Returned, init_order1) \<Rightarrow>
                if name fs \<in> set init_order1 then (Raised AssertionError, init_order1)
                else (Returned, init_order1 @ [name fs])))"
| "add_init_deps [] allsets init_order depth = (Returned, init_order)"
| "add_init_deps (depname # rest) allsets init_order depth =
     (case map_of allsets depname of
        None \<Rightarrow> add_init_deps rest allsets init_order depth
      | Some depfset \<Rightarrow>
          (case add_init depfset allsets init_order (depth + 1) of
             (Raised e, init_order1) \<Rightarrow> (Raised e, init_order1)
           | (Returned, init_order1) \<Rightarrow> add_init_deps rest allsets init_order1 depth))"
  by pat_completeness auto
termination
  by (relation "measures
        [\<lambda>x. case x of
           Inl (fs, allsets, init_order, depth) \<Rightarrow>
             if depth > 10 then 0 else 2 * nat (11 - depth) + 2
         | Inr (ds, allsets, init_order, depth) \<Rightarrow> 2 * nat (11 - depth) + 1,
         \<lambda>x. case x of Inl _ \<Rightarrow> 0 | Inr (ds, _) \<Rightarrow> length ds]")
    auto

declare add_init.simps [simp del]

section \<open>Init-order resolution in \<^verbatim>\<open>generate_app_module\<close>\<close>

text \<open>
  \<^verbatim>\<open>for fsetname, fset in sorted(all_ss_fsets.items()): _add_init(fset, all_ss_fsets, init_order, 0)\<close>.
  The items are pairs with pairwise different first components, so sorting them compares
  the names only. \<open>init_loop\<close> is the loop on the items that are left.
\<close>

fun init_loop :: "fsdict \<Rightarrow> fsdict \<Rightarrow> string list \<Rightarrow> outcome \<times> string list" where
  "init_loop [] allsets init_order = (Returned, init_order)"
| "init_loop ((fsetname, fs) # rest) allsets init_order =
     (case add_init fs allsets init_order 0 of
        (Raised e, init_order1) \<Rightarrow> (Raised e, init_order1)
      | (Returned, init_order1) \<Rightarrow> init_loop rest allsets init_order1)"

definition resolve_init_order :: "fsdict \<Rightarrow> outcome \<times> string list" where
  "resolve_init_order all_ss_fsets = init_loop (sort_key fst all_ss_fsets) all_ss_fsets []"

section \<open>The dependency relation of a mapping\<close>

text \<open>
  A dict built by the caller stores every feature set under its own name
  (spec, section 3: "\<^verbatim>\<open>name\<close>: unique identifier (key in the dependency map)").
\<close>

definition names_match :: "fsdict \<Rightarrow> bool" where
  "names_match d = list_all (\<lambda>(k, fs). name fs = k) d"

definition wf_fsdict :: "fsdict \<Rightarrow> bool" where
  "wf_fsdict d = (distinct (map fst d) \<and> names_match d)"

text \<open>The dependencies of the feature set stored under \<open>c\<close> that are keys themselves, in sorted order.\<close>

definition present_deps :: "fsdict \<Rightarrow> string \<Rightarrow> string list" where
  "present_deps d c =
     (case map_of d c of
        None \<Rightarrow> []
      | Some fs \<Rightarrow> filter (\<lambda>x. map_of d x \<noteq> None)
                   (sorted_list_of_fset (python_app_subsystem_dependencies fs)))"

text \<open>
  \<open>(c, x)\<close> is in the dependency relation when \<open>c\<close> is a key and \<open>x\<close> is a dependency of \<open>c\<close>
  that is a key. \<open>dep_rel_outside d S\<close> keeps the pairs with both ends outside \<open>S\<close>.
\<close>

definition dep_rel_outside :: "fsdict \<Rightarrow> string set \<Rightarrow> (string \<times> string) set" where
  "dep_rel_outside d S = {(c, x). c \<notin> S \<and> x \<notin> S \<and> x \<in> set (present_deps d c)}"

definition dep_rel :: "fsdict \<Rightarrow> (string \<times> string) set" where
  "dep_rel d = {(c, x). x \<in> set (present_deps d c)}"

text \<open>\<open>x\<close> occurs in \<open>order\<close> strictly before the first occurrence of \<open>c\<close>.\<close>

definition precedes :: "string \<Rightarrow> string \<Rightarrow> string list \<Rightarrow> bool" where
  "precedes x c order = (c \<in> set order \<and> x \<in> set (takeWhile (\<lambda>y. y \<noteq> c) order))"

text \<open>
  The topological invariant of a (partially built) \<^verbatim>\<open>init_order\<close>: no name twice, and
  every present dependency of a listed name is listed before it.
\<close>

definition topo_inv :: "fsdict \<Rightarrow> string list \<Rightarrow> bool" where
  "topo_inv d order =
     (distinct order \<and> (\<forall>c \<in> set order. \<forall>x \<in> set (present_deps d c). precedes x c order))"

text \<open>
  \<open>chain_le d n c\<close>: every chain of present dependencies that starts at \<open>c\<close> has at most \<open>n\<close>
  steps.
\<close>

fun chain_le :: "fsdict \<Rightarrow> nat \<Rightarrow> string \<Rightarrow> bool" where
  "chain_le d 0 c = (present_deps d c = [])"
| "chain_le d (Suc n) c = list_all (chain_le d n) (present_deps d c)"

section \<open>Mappings without their absent dependencies\<close>

text \<open>
  \<open>drop_absent d fs\<close> is \<open>fs\<close> without the dependency names that are not keys of \<open>d\<close>;
  \<open>drop_absent_deps d\<close> does this to every feature set of \<open>d\<close>. Resolution on \<open>d\<close> ignores
  the absent names exactly when it cannot tell \<open>d\<close> from \<open>drop_absent_deps d\<close>.
\<close>

definition drop_absent :: "fsdict \<Rightarrow> FeatureSet \<Rightarrow> FeatureSet" where
  "drop_absent d fs =
     fs\<lparr>python_app_subsystem_dependencies :=
          ffilter (\<lambda>x. map_of d x \<noteq> None) (python_app_subsystem_dependencies fs)\<rparr>"

definition drop_absent_deps :: "fsdict \<Rightarrow> fsdict" where
  "drop_absent_deps d = map (\<lambda>(k, fs). (k, drop_absent d fs)) d"

section \<open>Example inputs\<close>

text \<open>
  A feature set with a Python app subsystem, stored under its own name, with the given
  dependencies and no soft requirements.
\<close>

definition feature_set :: "string \<Rightarrow> string list \<Rightarrow> string \<times> FeatureSet" where
  "feature_set n deps =
     (n, \<lparr>name = n, name_python_package = ''ba'' @ n, name_camel = n,
         has_python_app_subsystem = True,
         python_app_subsystem_dependencies = fset_of_list deps,
         soft_requirements = {||}, allow_as_soft_requirement = False\<rparr>)"

text \<open>The scenario of the spec, section 8: \<^verbatim>\<open>{scene_v1: [base], base: [], ui: [base]}\<close>.\<close>

definition spec_scenario :: fsdict where
  "spec_scenario =
     [feature_set ''scene_v1'' [''base''], feature_set ''base'' [], feature_set ''ui'' [''base'']]"

text \<open>The two-element cycle of the spec, section 8: \<^verbatim>\<open>{a: [b], b: [a]}\<close>.\<close>

definition two_cycle :: fsdict where
  "two_cycle = [feature_set ''a'' [''b''], feature_set ''b'' [''a'']]"

text \<open>
  \<^verbatim>\<open>{base: [], scene_v1: [base, ui], ui: [scene_v1]}\<close>: \<^verbatim>\<open>scene_v1\<close> and \<^verbatim>\<open>ui\<close> depend on
  each other, and \<^verbatim>\<open>scene_v1\<close> also depends on \<^verbatim>\<open>base\<close>, which depends on nothing.
\<close>

definition cycle_with_leaf :: fsdict where
  "cycle_with_leaf =
     [feature_set ''base'' [], feature_set ''scene_v1'' [''base'', ''ui''],
      feature_set ''ui'' [''scene_v1'']]"

text \<open>
  Twelve feature sets in a row, \<^verbatim>\<open>k00\<close> depending on \<^verbatim>\<open>k01\<close>, ..., \<^verbatim>\<open>k10\<close> on \<^verbatim>\<open>k11\<close>,
  and \<^verbatim>\<open>k11\<close> on nothing.
\<close>

definition chain12 :: fsdict where
  "chain12 =
     [feature_set ''k00'' [''k01''], feature_set ''k01'' [''k02''], feature_set ''k02'' [''k03''],
      feature_set ''k03'' [''k04''], feature_set ''k04'' [''k05''], feature_set ''k05'' [''k06''],
      feature_set ''k06'' [''k07''], feature_set ''k07'' [''k08''], feature_set ''k08'' [''k09''],
      feature_set ''k09'' [''k10''], feature_set ''k10'' [''k11''], feature_set ''k11'' []]"

text \<open>The same mapping as \<open>spec_scenario\<close>, built in another order.\<close>

definition spec_scenario_reordered :: fsdict where
  "spec_scenario_reordered =
     [feature_set ''base'' [], feature_set ''ui'' [''base''], feature_set ''scene_v1'' [''base'']]"

text \<open>
  \<open>spec_scenario\<close> with two dependency names, \<^verbatim>\<open>classic\<close> and \<^verbatim>\<open>plus\<close>, that are not keys.
\<close>

definition with_absent_dep :: fsdict where
  "with_absent_dep =
     [feature_set ''scene_v1'' [''base'', ''classic''], feature_set ''base'' [''plus''],
      feature_set ''ui'' [''base'']]"

section \<open>The section rewriter\<close>

text \<open>The two errors of the rewriter (spec, section 7).\<close>

datatype rewrite_error = MarkerNotFoundError | MarkerOrderError

text \<open>
  Modelled from the spec: \<^verbatim>\<open>replace_section\<close> is imported from \<^verbatim>\<open>efrotools\<close>, which is not
  among the sources; \<open>rewrite\<close> follows the words of the spec, section 4.1. A document is a
  sequence of lines, a marker is a line, the new content is a sequence of lines. The
  operation locates the first line equal to \<^verbatim>\<open>beginMarker\<close> and the first line equal to
  \<^verbatim>\<open>endMarker\<close> after it. It fails with \<open>MarkerNotFoundError\<close> if either marker is absent,
  and with \<open>MarkerOrderError\<close> if the end marker occurs only at or before the begin marker, or
  if there is no line between the two. The result is the lines before the begin marker
  (marker included if \<^verbatim>\<open>keepMarkers\<close>), the new content, the end marker (if
  \<^verbatim>\<open>keepMarkers\<close>) and the lines after it.
\<close>

definition rewrite ::
  "string list \<Rightarrow> string \<Rightarrow> string \<Rightarrow> string list \<Rightarrow> bool \<Rightarrow> rewrite_error + string list" where
  "rewrite document beginMarker endMarker newContent keepMarkers =
     (if beginMarker \<notin> set document \<or> endMarker \<notin> set document then Inl MarkerNotFoundError
      else
        let before = takeWhile (\<lambda>l. l \<noteq> beginMarker) document;
            afterBegin = tl (dropWhile (\<lambda>l. l \<noteq> beginMarker) document);
            between = takeWhile (\<lambda>l. l \<noteq> endMarker) afterBegin;
            fromEnd = dropWhile (\<lambda>l. l \<noteq> endMarker) afterBegin
        in if fromEnd = [] \<or> between = [] then Inl MarkerOrderError
           else Inr (before @ (if keepMarkers then [beginMarker] else []) @ newContent @
                     (if keepMarkers then [endMarker] else []) @ tl fromEnd))"

text \<open>\<^verbatim>\<open>rewrite(rewrite(d, b, e, c, k), b, e, c, k)\<close>; an error of the inner call is the result.\<close>

definition rewrite_twice ::
  "string list \<Rightarrow> string \<Rightarrow> string \<Rightarrow> string list \<Rightarrow> bool \<Rightarrow> rewrite_error + string list" where
  "rewrite_twice d b e c k =
     (case rewrite d b e c k of Inl err \<Rightarrow> Inl err | Inr d1 \<Rightarrow> rewrite d1 b e c k)"

text \<open>
  The document of the scenario of the spec, section 8, one line per element; the markers are
  the lines \<^verbatim>\<open>BEGIN\<close> and \<^verbatim>\<open>END\<close>.
\<close>

definition scenario_document :: "string list" where
  "scenario_document = [''X'', ''BEGIN'', ''old'', ''END'', ''Y'']"

section \<open>\<^verbatim>\<open>generate_app_module\<close>\<close>

text \<open>The newline, the single quote and the triple double quote of the generated Python text.\<close>

abbreviation nl :: string where "nl \<equiv> [CHR 0x0A]"
abbreviation sq :: string where "sq \<equiv> [CHR 0x27]"
abbreviation dq3 :: string where "dq3 \<equiv> [CHR 0x22, CHR 0x22, CHR 0x22]"

text \<open>
  What \<^verbatim>\<open>generate_app_module\<close> uses and the sources do not hold is a parameter:
  \<^verbatim>\<open>efrotools.replace_section\<close>, which may raise, \<^verbatim>\<open>textwrap.indent\<close> of the Python
  library, and \<^verbatim>\<open>__name__\<close>, the name under which the module was imported.
\<close>

record externals =
  replace_section :: "string \<Rightarrow> string \<Rightarrow> string \<Rightarrow> string \<Rightarrow> bool \<Rightarrow> error + string"
  textwrap_indent :: "string \<Rightarrow> string \<Rightarrow> string"
  this_module_name :: string

text \<open>
  Calling \<^verbatim>\<open>replace_section\<close> is the one effect of the function. The model records every
  call with its five arguments, in the order of the calls, and returns the record next to the
  result: \<open>run_call\<close> is the call itself.
\<close>

record rs_call =
  rs_text :: string
  rs_begin_marker :: string
  rs_end_marker :: string
  rs_replace_text :: string
  rs_keep_markers :: bool

definition run_call :: "externals \<Rightarrow> rs_call \<Rightarrow> error + string" where
  "run_call ext c =
     replace_section ext (rs_text c) (rs_begin_marker c) (rs_end_marker c) (rs_replace_text c)
       (rs_keep_markers c)"

text \<open>\<^verbatim>\<open>info = f'# This section generated by {__name__}; do not edit.'\<close>\<close>

definition info :: "externals \<Rightarrow> string" where
  "info ext = ''# This section generated by '' @ this_module_name ext @ ''; do not edit.''"

text \<open>
  The imports: \<^verbatim>\<open>for _fsname, fset in sorted(fsets.items())\<close>, adding a line for every feature
  set with an app subsystem, and the first call of \<^verbatim>\<open>replace_section\<close>.
\<close>

fun imports_loop :: "fsdict \<Rightarrow> string \<Rightarrow> string" where
  "imports_loop [] contents = contents"
| "imports_loop ((fsname, fs) # rest) contents =
     imports_loop rest
       (if has_python_app_subsystem fs
        then contents @ ''from '' @ name_python_package fs @ '' import '' @
             (name_camel fs @ ''Subsystem'') @ nl
        else contents)"

definition imports_call :: "externals \<Rightarrow> fsdict \<Rightarrow> string \<Rightarrow> rs_call" where
  "imports_call ext fsets out =
     (let indent = ''    '';
          contents = imports_loop (sort_key fst fsets) []
      in \<lparr>rs_text = out,
          rs_begin_marker = indent @ ''# __FEATURESET_APP_SUBSYSTEM_IMPORTS_BEGIN__'' @ nl,
          rs_end_marker = indent @ ''# __FEATURESET_APP_SUBSYSTEM_IMPORTS_END__'' @ nl,
          rs_replace_text =
            textwrap_indent ext
              (if contents \<noteq> [] then info ext @ nl @ nl @ contents @ nl else info ext @ nl)
              indent,
          rs_keep_markers = True\<rparr>)"

text \<open>
  The names that are soft-required by a feature set of the dict and are not keys of it:
  \<^verbatim>\<open>for fset in fsets.values(): for softreq in fset.soft_requirements: if softreq not in fsets:
  missing_soft_fset_names.add(softreq)\<close>. The inner loop adds to a set the elements of a set
  that pass a test, in whatever order.
\<close>

fun missing_soft_loop :: "FeatureSet list \<Rightarrow> fsdict \<Rightarrow> string fset \<Rightarrow> string fset" where
  "missing_soft_loop [] fsets missing_soft_fset_names = missing_soft_fset_names"
| "missing_soft_loop (fs # rest) fsets missing_soft_fset_names =
     missing_soft_loop rest fsets
       (missing_soft_fset_names |\<union>|
          ffilter (\<lambda>softreq. map_of fsets softreq = None) (soft_requirements fs))"

definition missing_soft_fset_names :: "fsdict \<Rightarrow> string fset" where
  "missing_soft_fset_names fsets = missing_soft_loop (map snd fsets) fsets {||}"

definition all_fset_names :: "fsdict \<Rightarrow> string fset" where
  "all_fset_names fsets = missing_soft_fset_names fsets |\<union>| fset_of_list (map fst fsets)"

text \<open>The three property texts; \<open>modname\<close> and \<open>classname\<close> as in the source.\<close>

definition missing_property :: "string \<Rightarrow> string" where
  "missing_property fsetname =
     nl @
     ''@cached_property'' @ nl @
     ''def '' @ fsetname @ ''(self) -> Any | None:'' @ nl @
     ''    '' @ dq3 @ ''Our '' @ fsetname @ '' subsystem (not available'' @
     '' in this project).'' @ dq3 @ nl @
     nl @
     ''    return None'' @ nl"

definition soft_property :: "FeatureSet \<Rightarrow> string" where
  "soft_property fs =
     (let modname = name_python_package fs; classname = name_camel fs @ ''Subsystem'' in
      nl @
      ''@cached_property'' @ nl @
      ''def '' @ name fs @ ''(self) -> '' @ classname @ '' | None:'' @ nl @
      ''    '' @ dq3 @ ''Our '' @ name fs @ '' subsystem (if available).'' @ dq3 @ nl @
      ''    # pylint: disable=cyclic-import'' @ nl @
      nl @
      ''    try:'' @ nl @
      ''        from '' @ modname @ '' import '' @ classname @ nl @
      nl @
      ''        return '' @ classname @ ''()'' @ nl @
      ''    except ImportError:'' @ nl @
      ''        return None'' @ nl @
      ''    except Exception:'' @ nl @
      ''        logging.exception('' @ sq @ ''Error importing'' @
      '' '' @ modname @ ''.'' @ sq @ '')'' @ nl @
      ''        return None'' @ nl)"

definition always_property :: "FeatureSet \<Rightarrow> string" where
  "always_property fs =
     (let modname = name_python_package fs; classname = name_camel fs @ ''Subsystem'' in
      nl @
      ''@cached_property'' @ nl @
      ''def '' @ name fs @ ''(self) -> '' @ classname @ '':'' @ nl @
      ''    '' @ dq3 @ ''Our '' @ name fs @ '' subsystem'' @
      '' (always available).'' @ dq3 @ nl @
      ''    # pylint: disable=cyclic-import'' @ nl @
      nl @
      ''    from '' @ modname @ '' import '' @ classname @ nl @
      nl @
      ''    return '' @ classname @ ''()'' @ nl)"

text \<open>
  \<^verbatim>\<open>for fsetname in sorted(all_fset_names)\<close>: the subscript \<^verbatim>\<open>fsets[fsetname]\<close> raises
  \<^verbatim>\<open>KeyError\<close> for a name that is not a key.
\<close>

fun properties_loop :: "string list \<Rightarrow> fsdict \<Rightarrow> string fset \<Rightarrow> string \<Rightarrow> error + string" where
  "properties_loop [] fsets missing contents = Inr contents"
| "properties_loop (fsetname # rest) fsets missing contents =
     (if fsetname |\<in>| missing
      then properties_loop rest fsets missing (contents @ missing_property fsetname)
      else (case map_of fsets fsetname of
              None \<Rightarrow> Inl (KeyError fsetname)
            | Some fs \<Rightarrow>
                if has_python_app_subsystem fs
                then (if allow_as_soft_requirement fs
                      then properties_loop rest fsets missing (contents @ soft_property fs)
                      else properties_loop rest fsets missing (contents @ always_property fs))
                else properties_loop rest fsets missing contents))"

definition properties_contents :: "fsdict \<Rightarrow> error + string" where
  "properties_contents fsets =
     properties_loop (sorted_list_of_fset (all_fset_names fsets)) fsets
       (missing_soft_fset_names fsets) []"

definition properties_call :: "externals \<Rightarrow> string \<Rightarrow> string \<Rightarrow> rs_call" where
  "properties_call ext contents out =
     (let indent = ''    '' in
      \<lparr>rs_text = out,
       rs_begin_marker = indent @ ''# __FEATURESET_APP_SUBSYSTEM_PROPERTIES_BEGIN__'' @ nl,
       rs_end_marker = indent @ ''# __FEATURESET_APP_SUBSYSTEM_PROPERTIES_END__'' @ nl,
       rs_replace_text = textwrap_indent ext (info ext @ nl @ contents @ nl) indent,
       rs_keep_markers = True\<rparr>)"

text \<open>
  The feature sets with an app subsystem, in the order of the dict, and the text poking them
  in the order that \<open>resolve_init_order\<close> gives.
\<close>

definition all_ss_fsets :: "fsdict \<Rightarrow> fsdict" where
  "all_ss_fsets fsets = filter (\<lambda>(fsetname, fs). has_python_app_subsystem fs) fsets"

definition poke_contents :: "string list \<Rightarrow> string" where
  "poke_contents init_order =
     ''# Poke these attrs to create all our subsystems.'' @ nl @
     concat (map (\<lambda>fsetname. ''_ = self.'' @ fsetname @ nl) init_order)"

definition create_call :: "externals \<Rightarrow> string list \<Rightarrow> string \<Rightarrow> rs_call" where
  "create_call ext init_order out =
     (let indent = ''        '' in
      \<lparr>rs_text = out,
       rs_begin_marker = indent @ ''# __FEATURESET_APP_SUBSYSTEM_CREATE_BEGIN__'' @ nl,
       rs_end_marker = indent @ ''# __FEATURESET_APP_SUBSYSTEM_CREATE_END__'' @ nl,
       rs_replace_text =
         textwrap_indent ext (info ext @ nl @ nl @ poke_contents init_order @ nl) indent,
       rs_keep_markers = True\<rparr>)"

text \<open>The default app-mode selection; \<^verbatim>\<open>'scene_v1' in fsets\<close> is a lookup in the dict.\<close>

definition app_mode_contents :: "fsdict \<Rightarrow> string" where
  "app_mode_contents fsets =
     (let contents0 =
            ''# Hmm; need to think about how we auto-construct this; how'' @ nl @
            ''# should we determine which app modes to check and in what'' @ nl @
            ''# order?'' @ nl;
          contents1 = (if map_of fsets ''scene_v1'' \<noteq> None
                       then contents0 @ ''import bascenev1'' @ nl @ nl else contents0);
          contents2 = (if map_of fsets ''base'' \<noteq> None
                       then contents1 @ ''import babase'' @ nl @ nl else contents1);
          contents3 = (if map_of fsets ''scene_v1'' \<noteq> None
                       then contents2 @
                            ''if bascenev1.SceneV1AppMode.can_handle_intent(intent):'' @ nl @
                            ''    return bascenev1.SceneV1AppMode'' @ nl @ nl
                       else contents2);
          contents4 = (if map_of fsets ''base'' \<noteq> None
                       then contents3 @
                            ''if babase.EmptyAppMode.can_handle_intent(intent):'' @ nl @
                            ''    return babase.EmptyAppMode'' @ nl @ nl
                       else contents3)
      in contents4 @
         ''raise RuntimeError(f'' @ sq @ ''No handler found for'' @
         '' intent {type(intent)}.'' @ sq @ '')'' @ nl)"

definition app_mode_call :: "externals \<Rightarrow> fsdict \<Rightarrow> string \<Rightarrow> rs_call" where
  "app_mode_call ext fsets out =
     (let indent = ''            '' in
      \<lparr>rs_text = out,
       rs_begin_marker = indent @ ''# __DEFAULT_APP_MODE_SELECTION_BEGIN__'' @ nl,
       rs_end_marker = indent @ ''# __DEFAULT_APP_MODE_SELECTION_END__'' @ nl,
       rs_replace_text =
         textwrap_indent ext (info ext @ nl @ nl @ app_mode_contents fsets @ nl) indent,
       rs_keep_markers = True\<rparr>)"

text \<open>
  The function: four calls of \<^verbatim>\<open>replace_section\<close>, each on the text the call before it
  returned, with the property text and the init order computed between them. An exception
  of a call, of the subscript or of \<^verbatim>\<open>_add_init\<close> ends the run.
\<close>

definition generate_app_module ::
  "externals \<Rightarrow> fsdict \<Rightarrow> string \<Rightarrow> rs_call list \<times> (error + string)" where
  "generate_app_module ext fsets existing_data =
     (let call1 = imports_call ext fsets existing_data in
      case run_call ext call1 of
        Inl e \<Rightarrow> ([call1], Inl e)
      | Inr out1 \<Rightarrow>
          (case properties_contents fsets of
             Inl e \<Rightarrow> ([call1], Inl e)
           | Inr contents \<Rightarrow>
               (let call2 = properties_call ext contents out1 in
                case run_call ext call2 of
                  Inl e \<Rightarrow> ([call1, call2], Inl e)
                | Inr out2 \<Rightarrow>
                    (case resolve_init_order (all_ss_fsets fsets) of
                       (Raised e, init_order) \<Rightarrow> ([call1, call2], Inl e)
                     | (Returned, init_order) \<Rightarrow>
                         (let call3 = create_call ext init_order out2 in
                          case run_call ext call3 of
                            Inl e \<Rightarrow> ([call1, call2, call3], Inl e)
                          | Inr out3 \<Rightarrow>
                              (let call4 = app_mode_call ext fsets out3
                               in ([call1, call2, call3, call4], run_call ext call4)))))))"

section \<open>Example inputs of generation\<close>


text \<open>
  Stand-ins for the collaborators: a \<^verbatim>\<open>replace_section\<close> that appends the section to the
  text, an indentation that changes nothing.
\<close>

definition stub_externals :: externals where
  "stub_externals =
     \<lparr>replace_section = (\<lambda>text b e r k. Inr (text @ b @ r @ e)),
      textwrap_indent = (\<lambda>text prefix. text),
      this_module_name = ''batools.appmodule''\<rparr>"

section \<open>Properties of \<^verbatim>\<open>_add_init\<close>\<close>

lemma wf_lookup_name: "wf_fsdict d \<Longrightarrow> map_of d k = Some fs \<Longrightarrow> name fs = k"
  by (auto simp: wf_fsdict_def names_match_def list_all_iff dest!: map_of_SomeD)

lemma wf_item_stored: "wf_fsdict d \<Longrightarrow> (k, fs) \<in> set d \<Longrightarrow> map_of d (name fs) = Some fs"
  by (auto simp: wf_fsdict_def names_match_def list_all_iff)

lemma wf_lookup_stored: "wf_fsdict d \<Longrightarrow> map_of d k = Some fs \<Longrightarrow> map_of d (name fs) = Some fs"
  using wf_lookup_name by fastforce

lemma add_init_cases [case_names too_deep already loop_raised assert_fail appended]:
  obtains
    "depth > 10" "add_init fs d io depth = (Raised (RuntimeError (cycle_message (name fs))), io)"
  | "\<not> depth > 10" "name fs \<in> set io" "add_init fs d io depth = (Returned, io)"
  | e io1 where "\<not> depth > 10" "name fs \<notin> set io"
      "add_init_deps (sorted_list_of_fset (python_app_subsystem_dependencies fs)) d io depth = (Raised e, io1)"
      "add_init fs d io depth = (Raised e, io1)"
  | io1 where "\<not> depth > 10" "name fs \<notin> set io"
      "add_init_deps (sorted_list_of_fset (python_app_subsystem_dependencies fs)) d io depth = (Returned, io1)"
      "name fs \<in> set io1" "add_init fs d io depth = (Raised AssertionError, io1)"
  | io1 where "\<not> depth > 10" "name fs \<notin> set io"
      "add_init_deps (sorted_list_of_fset (python_app_subsystem_dependencies fs)) d io depth = (Returned, io1)"
      "name fs \<notin> set io1" "add_init fs d io depth = (Returned, io1 @ [name fs])"
proof (cases "depth > 10")
  case True
  then show ?thesis using that(1) by (simp add: add_init.simps)
next
  case deep: False
  show ?thesis
  proof (cases "name fs \<in> set io")
    case True
    then show ?thesis using deep that(2) by (simp add: add_init.simps)
  next
    case notin: False
    obtain r io1 where
      loop: "add_init_deps (sorted_list_of_fset (python_app_subsystem_dependencies fs)) d io depth = (r, io1)"
      by (cases "add_init_deps (sorted_list_of_fset (python_app_subsystem_dependencies fs)) d io depth")
    show ?thesis
    proof (cases r)
      case Returned
      then show ?thesis
        using deep notin loop that(4)[of io1] that(5)[of io1]
        by (cases "name fs \<in> set io1") (simp_all add: add_init.simps)
    next
      case (Raised e)
      then show ?thesis using deep notin loop that(3)[of e io1] by (simp add: add_init.simps)
    qed
  qed
qed

lemma add_init_deps_cases [case_names absent dep_raised dep_returned]:
  obtains
    "map_of d x = None" "add_init_deps (x # rest) d io depth = add_init_deps rest d io depth"
  | depfset e io1 where "map_of d x = Some depfset"
      "add_init depfset d io (depth + 1) = (Raised e, io1)"
      "add_init_deps (x # rest) d io depth = (Raised e, io1)"
  | depfset io1 where "map_of d x = Some depfset"
      "add_init depfset d io (depth + 1) = (Returned, io1)"
      "add_init_deps (x # rest) d io depth = add_init_deps rest d io1 depth"
proof (cases "map_of d x")
  case None
  then show ?thesis using that(1) by simp
next
  case (Some depfset)
  obtain r io1 where call: "add_init depfset d io (depth + 1) = (r, io1)"
    by (cases "add_init depfset d io (depth + 1)")
  show ?thesis
  proof (cases r)
    case Returned
    then show ?thesis using Some call that(3)[of depfset io1] by simp
  next
    case (Raised e)
    then show ?thesis using Some call that(2)[of depfset e io1] by simp
  qed
qed

lemma add_init_prefix:
  "prefix io (snd (add_init fs d io depth))"
  "prefix io (snd (add_init_deps ds d io depth))"
proof (induction fs d io depth and ds d io depth rule: add_init_add_init_deps.induct)
  case (1 fs allsets init_order depth)
  then show ?case
    by (cases rule: add_init_cases[where fs=fs and d=allsets and io=init_order and depth=depth]) (auto intro: prefix_order.trans)
next
  case (2 allsets init_order depth)
  then show ?case by simp
next
  case (3 depname rest allsets init_order depth)
  then show ?case
    by (cases rule: add_init_deps_cases[where d=allsets and x=depname and rest=rest and io=init_order and depth=depth])
      (auto intro: prefix_order.trans)
qed

lemma add_init_mono: "set io \<subseteq> set (snd (add_init fs d io depth))"
  using add_init_prefix(1) set_mono_prefix by blast

lemma add_init_deps_mono: "set io \<subseteq> set (snd (add_init_deps ds d io depth))"
  using add_init_prefix(2) set_mono_prefix by blast

text \<open>Returning normally means the feature set is listed.\<close>

lemma add_init_returned:
  "wf_fsdict d \<Longrightarrow> fst (add_init fs d io depth) = Returned \<Longrightarrow> name fs \<in> set (snd (add_init fs d io depth))"
  "wf_fsdict d \<Longrightarrow> fst (add_init_deps ds d io depth) = Returned \<Longrightarrow>
     \<forall>x \<in> set ds. map_of d x \<noteq> None \<longrightarrow> x \<in> set (snd (add_init_deps ds d io depth))"
proof (induction fs d io depth and ds d io depth rule: add_init_add_init_deps.induct)
  case (1 fs allsets init_order depth)
  then show ?case
    by (cases rule: add_init_cases[where fs=fs and d=allsets and io=init_order and depth=depth]) auto
next
  case (2 allsets init_order depth)
  then show ?case by simp
next
  case (3 depname rest allsets init_order depth)
  show ?case
  proof (cases rule: add_init_deps_cases[where d=allsets and x=depname and rest=rest and io=init_order and depth=depth])
    case absent
    then show ?thesis using 3 by auto
  next
    case (dep_raised depfset e io1)
    then show ?thesis using 3 by auto
  next
    case (dep_returned depfset io1)
    have "name depfset = depname" using wf_lookup_name[OF "3.prems"(1) dep_returned(1)] .
    moreover have "name depfset \<in> set io1"
      using "3.IH"(2)[OF dep_returned(1) "3.prems"(1)] dep_returned(2) by simp
    moreover have "set io1 \<subseteq> set (snd (add_init_deps rest allsets io1 depth))"
      by (rule add_init_deps_mono)
    moreover have "\<forall>x \<in> set rest. map_of allsets x \<noteq> None \<longrightarrow> x \<in> set (snd (add_init_deps rest allsets io1 depth))"
      using "3.IH"(3)[OF dep_returned(1) dep_returned(2)[symmetric] refl "3.prems"(1)]
        "3.prems"(2) dep_returned(3) by simp
    ultimately show ?thesis using dep_returned(3) by auto
  qed
qed

lemma present_deps_stored:
  "map_of d c = Some fs \<Longrightarrow>
     set (present_deps d c) = {x \<in> set (sorted_list_of_fset (python_app_subsystem_dependencies fs)). map_of d x \<noteq> None}"
  by (simp add: present_deps_def)

lemma dep_rel_outside_stuck:
  assumes "(x, y) \<in> (dep_rel_outside d S)\<^sup>*" "x \<in> S"
  shows "y = x"
  using assms by (induction rule: converse_rtrancl_induct) (auto simp: dep_rel_outside_def)

lemma deps_reach:
  assumes stored: "map_of d c = Some fs" and c: "c \<notin> set io" and S: "S \<subseteq> set io"
  shows "(dep_rel_outside d S)\<^sup>* `` {x \<in> set (sorted_list_of_fset (python_app_subsystem_dependencies fs)). map_of d x \<noteq> None}
           \<subseteq> set io \<union> (dep_rel_outside d S)\<^sup>+ `` {c}"
proof
  fix y
  assume "y \<in> (dep_rel_outside d S)\<^sup>* `` {x \<in> set (sorted_list_of_fset (python_app_subsystem_dependencies fs)). map_of d x \<noteq> None}"
  then obtain x where x: "x \<in> set (present_deps d c)" and xy: "(x, y) \<in> (dep_rel_outside d S)\<^sup>*"
    using present_deps_stored[OF stored] by auto
  show "y \<in> set io \<union> (dep_rel_outside d S)\<^sup>+ `` {c}"
  proof (cases "x \<in> S")
    case True
    then show ?thesis using dep_rel_outside_stuck[OF xy] S by auto
  next
    case False
    then have "(c, x) \<in> dep_rel_outside d S" using x c S by (auto simp: dep_rel_outside_def)
    then have "(c, y) \<in> (dep_rel_outside d S)\<^sup>+" using xy by (rule rtrancl_into_trancl2)
    then show ?thesis by blast
  qed
qed

text \<open>Every name a call appends is reachable from the feature set of the call.\<close>

lemma add_init_reach:
  "wf_fsdict d \<Longrightarrow> S \<subseteq> set io \<Longrightarrow> map_of d (name fs) = Some fs \<Longrightarrow>
     set (snd (add_init fs d io depth)) \<subseteq> set io \<union> (dep_rel_outside d S)\<^sup>* `` {name fs}"
  "wf_fsdict d \<Longrightarrow> S \<subseteq> set io \<Longrightarrow>
     set (snd (add_init_deps ds d io depth)) \<subseteq>
       set io \<union> (dep_rel_outside d S)\<^sup>* `` {x \<in> set ds. map_of d x \<noteq> None}"
proof (induction fs d io depth and ds d io depth rule: add_init_add_init_deps.induct)
  case (1 fs allsets init_order depth)
  show ?case
  proof (cases rule: add_init_cases[where fs=fs and d=allsets and io=init_order and depth=depth])
    case too_deep
    then show ?thesis by simp
  next
    case already
    then show ?thesis by simp
  next
    case (loop_raised e io1)
    have "set io1 \<subseteq> set init_order \<union> (dep_rel_outside allsets S)\<^sup>* ``
        {x \<in> set (sorted_list_of_fset (python_app_subsystem_dependencies fs)). map_of allsets x \<noteq> None}"
      using "1.IH"[OF loop_raised(1,2) "1.prems"(1,2)] loop_raised(3) by simp
    then have "set io1 \<subseteq> set init_order \<union> (dep_rel_outside allsets S)\<^sup>+ `` {name fs}"
      using deps_reach[OF "1.prems"(3) loop_raised(2) "1.prems"(2)] by blast
    then show ?thesis using loop_raised(4) by (auto dest: trancl_into_rtrancl)
  next
    case (assert_fail io1)
    have "set io1 \<subseteq> set init_order \<union> (dep_rel_outside allsets S)\<^sup>* ``
        {x \<in> set (sorted_list_of_fset (python_app_subsystem_dependencies fs)). map_of allsets x \<noteq> None}"
      using "1.IH"[OF assert_fail(1,2) "1.prems"(1,2)] assert_fail(3) by simp
    then have "set io1 \<subseteq> set init_order \<union> (dep_rel_outside allsets S)\<^sup>+ `` {name fs}"
      using deps_reach[OF "1.prems"(3) assert_fail(2) "1.prems"(2)] by blast
    then show ?thesis using assert_fail(5) by (auto dest: trancl_into_rtrancl)
  next
    case (appended io1)
    have "set io1 \<subseteq> set init_order \<union> (dep_rel_outside allsets S)\<^sup>* ``
        {x \<in> set (sorted_list_of_fset (python_app_subsystem_dependencies fs)). map_of allsets x \<noteq> None}"
      using "1.IH"[OF appended(1,2) "1.prems"(1,2)] appended(3) by simp
    then have "set io1 \<subseteq> set init_order \<union> (dep_rel_outside allsets S)\<^sup>+ `` {name fs}"
      using deps_reach[OF "1.prems"(3) appended(2) "1.prems"(2)] by blast
    then show ?thesis using appended(5) by (auto dest: trancl_into_rtrancl)
  qed
next
  case (2 allsets init_order depth)
  then show ?case by simp
next
  case (3 depname rest allsets init_order depth)
  show ?case
  proof (cases rule: add_init_deps_cases[where d=allsets and x=depname and rest=rest and io=init_order and depth=depth])
    case absent
    then show ?thesis using "3.IH"(1)[OF absent(1) "3.prems"] by auto
  next
    case (dep_raised depfset e io1)
    have nm: "name depfset = depname" using wf_lookup_name[OF "3.prems"(1) dep_raised(1)] .
    have "set io1 \<subseteq> set init_order \<union> (dep_rel_outside allsets S)\<^sup>* `` {name depfset}"
      using "3.IH"(2)[OF dep_raised(1) "3.prems" wf_lookup_stored[OF "3.prems"(1) dep_raised(1)]]
        dep_raised(2) by simp
    then show ?thesis using dep_raised(1,3) nm by auto
  next
    case (dep_returned depfset io1)
    have nm: "name depfset = depname" using wf_lookup_name[OF "3.prems"(1) dep_returned(1)] .
    have a: "set io1 \<subseteq> set init_order \<union> (dep_rel_outside allsets S)\<^sup>* `` {name depfset}"
      using "3.IH"(2)[OF dep_returned(1) "3.prems" wf_lookup_stored[OF "3.prems"(1) dep_returned(1)]]
        dep_returned(2) by simp
    have "set init_order \<subseteq> set io1" using add_init_mono[of init_order depfset allsets "depth + 1"] dep_returned(2) by simp
    then have S1: "S \<subseteq> set io1" using "3.prems"(2) by blast
    have b: "set (snd (add_init_deps rest allsets io1 depth)) \<subseteq>
        set io1 \<union> (dep_rel_outside allsets S)\<^sup>* `` {x \<in> set rest. map_of allsets x \<noteq> None}"
      using "3.IH"(3)[OF dep_returned(1) dep_returned(2)[symmetric] refl "3.prems"(1) S1] .
    show ?thesis using a b dep_returned(1,3) nm by auto
  qed
qed

lemma cycle_successor:
  assumes "(c, c) \<in> r\<^sup>+"
  shows "\<exists>e. (c, e) \<in> r \<and> (e, e) \<in> r\<^sup>+"
proof -
  obtain e where e: "(c, e) \<in> r" "(e, c) \<in> r\<^sup>*" using tranclD[OF assms] by blast
  then have "(e, e) \<in> r\<^sup>+" by (rule_tac rtrancl_into_trancl1)
  then show ?thesis using e(1) by blast
qed

lemma cyclic_has_cyclic_dep:
  assumes stored: "map_of d (name fs) = Some fs"
    and cyc: "(name fs, name fs) \<in> (dep_rel_outside d S)\<^sup>+"
  shows "\<exists>x \<in> set (sorted_list_of_fset (python_app_subsystem_dependencies fs)).
           map_of d x \<noteq> None \<and> (x, x) \<in> (dep_rel_outside d S)\<^sup>+"
proof -
  obtain e where e: "(name fs, e) \<in> dep_rel_outside d S" "(e, e) \<in> (dep_rel_outside d S)\<^sup>+"
    using cycle_successor[OF cyc] by blast
  from e(1) have "e \<in> set (present_deps d (name fs))" by (simp add: dep_rel_outside_def)
  then show ?thesis using present_deps_stored[OF stored] e(2) by auto
qed

text \<open>A feature set on a dependency cycle is never appended, and a call on it never returns.\<close>

lemma add_init_cyclic:
  "wf_fsdict d \<Longrightarrow> S \<subseteq> set io \<Longrightarrow> \<forall>c \<in> set io. (c, c) \<notin> (dep_rel_outside d S)\<^sup>+ \<Longrightarrow>
     map_of d (name fs) = Some fs \<Longrightarrow>
     (\<forall>c \<in> set (snd (add_init fs d io depth)). (c, c) \<notin> (dep_rel_outside d S)\<^sup>+) \<and>
     ((name fs, name fs) \<in> (dep_rel_outside d S)\<^sup>+ \<longrightarrow> fst (add_init fs d io depth) \<noteq> Returned)"
  "wf_fsdict d \<Longrightarrow> S \<subseteq> set io \<Longrightarrow> \<forall>c \<in> set io. (c, c) \<notin> (dep_rel_outside d S)\<^sup>+ \<Longrightarrow>
     (\<forall>c \<in> set (snd (add_init_deps ds d io depth)). (c, c) \<notin> (dep_rel_outside d S)\<^sup>+) \<and>
     ((\<exists>x \<in> set ds. map_of d x \<noteq> None \<and> (x, x) \<in> (dep_rel_outside d S)\<^sup>+) \<longrightarrow>
        fst (add_init_deps ds d io depth) \<noteq> Returned)"
proof (induction fs d io depth and ds d io depth rule: add_init_add_init_deps.induct)
  case (1 fs allsets init_order depth)
  note cyc_dep = cyclic_has_cyclic_dep[OF "1.prems"(4), of S]
  show ?case
  proof (cases rule: add_init_cases[where fs=fs and d=allsets and io=init_order and depth=depth])
    case too_deep
    then show ?thesis using "1.prems"(3) by simp
  next
    case already
    then show ?thesis using "1.prems"(3) by auto
  next
    case (loop_raised e io1)
    then show ?thesis using "1.IH"[OF loop_raised(1,2) "1.prems"(1,2,3)] by simp
  next
    case (assert_fail io1)
    then show ?thesis using "1.IH"[OF assert_fail(1,2) "1.prems"(1,2,3)] by simp
  next
    case (appended io1)
    note ih = "1.IH"[OF appended(1,2) "1.prems"(1,2,3)]
    have "fst (add_init_deps (sorted_list_of_fset (python_app_subsystem_dependencies fs))
        allsets init_order depth) = Returned"
      using appended(3) by simp
    then have "(name fs, name fs) \<notin> (dep_rel_outside allsets S)\<^sup>+"
      using ih cyc_dep by blast
    then show ?thesis using ih appended(3,5) by auto
  qed
next
  case (2 allsets init_order depth)
  then show ?case by simp
next
  case (3 depname rest allsets init_order depth)
  show ?case
  proof (cases rule: add_init_deps_cases[where d=allsets and x=depname and rest=rest and io=init_order and depth=depth])
    case absent
    then show ?thesis using "3.IH"(1)[OF absent(1) "3.prems"] by auto
  next
    case (dep_raised depfset e io1)
    then show ?thesis
      using "3.IH"(2)[OF dep_raised(1) "3.prems" wf_lookup_stored[OF "3.prems"(1) dep_raised(1)]]
      by simp
  next
    case (dep_returned depfset io1)
    have nm: "name depfset = depname" using wf_lookup_name[OF "3.prems"(1) dep_returned(1)] .
    note a = "3.IH"(2)[OF dep_returned(1) "3.prems" wf_lookup_stored[OF "3.prems"(1) dep_returned(1)]]
    have "set init_order \<subseteq> set io1"
      using add_init_mono[of init_order depfset allsets "depth + 1"] dep_returned(2) by simp
    then have S1: "S \<subseteq> set io1" using "3.prems"(2) by blast
    have inv1: "\<forall>c \<in> set io1. (c, c) \<notin> (dep_rel_outside allsets S)\<^sup>+"
      using a dep_returned(2) by simp
    note b = "3.IH"(3)[OF dep_returned(1) dep_returned(2)[symmetric] refl "3.prems"(1) S1 inv1]
    have "(depname, depname) \<notin> (dep_rel_outside allsets S)\<^sup>+"
      using a dep_returned(2) nm by auto
    then show ?thesis using b dep_returned(3) by auto
  qed
qed

text \<open>The \<^verbatim>\<open>assert\<close> of \<^verbatim>\<open>_add_init\<close> never fails.\<close>

lemma add_init_no_assertion_error:
  "wf_fsdict d \<Longrightarrow> S \<subseteq> set io \<Longrightarrow> \<forall>c \<in> set io. (c, c) \<notin> (dep_rel_outside d S)\<^sup>+ \<Longrightarrow>
     map_of d (name fs) = Some fs \<Longrightarrow> fst (add_init fs d io depth) \<noteq> Raised AssertionError"
  "wf_fsdict d \<Longrightarrow> S \<subseteq> set io \<Longrightarrow> \<forall>c \<in> set io. (c, c) \<notin> (dep_rel_outside d S)\<^sup>+ \<Longrightarrow>
     fst (add_init_deps ds d io depth) \<noteq> Raised AssertionError"
proof (induction fs d io depth and ds d io depth rule: add_init_add_init_deps.induct)
  case (1 fs allsets init_order depth)
  show ?case
  proof (cases rule: add_init_cases[where fs=fs and d=allsets and io=init_order and depth=depth])
    case too_deep
    then show ?thesis by simp
  next
    case already
    then show ?thesis by simp
  next
    case (loop_raised e io1)
    then show ?thesis using "1.IH"[OF loop_raised(1,2) "1.prems"(1,2,3)] by simp
  next
    case (assert_fail io1)
    have "set io1 \<subseteq> set init_order \<union> (dep_rel_outside allsets S)\<^sup>* ``
        {x \<in> set (sorted_list_of_fset (python_app_subsystem_dependencies fs)). map_of allsets x \<noteq> None}"
      using add_init_reach(2)[OF "1.prems"(1,2),
          of "sorted_list_of_fset (python_app_subsystem_dependencies fs)" depth] assert_fail(3)
      by simp
    then have "set io1 \<subseteq> set init_order \<union> (dep_rel_outside allsets S)\<^sup>+ `` {name fs}"
      using deps_reach[OF "1.prems"(4) assert_fail(2) "1.prems"(2)] by blast
    then have cyc: "(name fs, name fs) \<in> (dep_rel_outside allsets S)\<^sup>+"
      using assert_fail(2,4) by auto
    have "fst (add_init_deps (sorted_list_of_fset (python_app_subsystem_dependencies fs)) allsets init_order depth) \<noteq> Returned"
      using add_init_cyclic(2)[OF "1.prems"(1,2,3)] cyclic_has_cyclic_dep[OF "1.prems"(4) cyc]
      by blast
    then show ?thesis using assert_fail(3) by simp
  next
    case (appended io1)
    then show ?thesis by simp
  qed
next
  case (2 allsets init_order depth)
  then show ?case by simp
next
  case (3 depname rest allsets init_order depth)
  show ?case
  proof (cases rule: add_init_deps_cases[where d=allsets and x=depname and rest=rest and io=init_order and depth=depth])
    case absent
    then show ?thesis using "3.IH"(1)[OF absent(1) "3.prems"] by auto
  next
    case (dep_raised depfset e io1)
    then show ?thesis
      using "3.IH"(2)[OF dep_raised(1) "3.prems" wf_lookup_stored[OF "3.prems"(1) dep_raised(1)]]
      by simp
  next
    case (dep_returned depfset io1)
    have "set init_order \<subseteq> set io1"
      using add_init_mono[of init_order depfset allsets "depth + 1"] dep_returned(2) by simp
    then have S1: "S \<subseteq> set io1" using "3.prems"(2) by blast
    have inv1: "\<forall>c \<in> set io1. (c, c) \<notin> (dep_rel_outside allsets S)\<^sup>+"
      using add_init_cyclic(1)[OF "3.prems" wf_lookup_stored[OF "3.prems"(1) dep_returned(1)], of "depth + 1"]
        dep_returned(2) by simp
    show ?thesis
      using "3.IH"(3)[OF dep_returned(1) dep_returned(2)[symmetric] refl "3.prems"(1) S1 inv1]
        dep_returned(3) by simp
  qed
qed

lemma no_cycle_through_listed:
  "\<forall>c \<in> S. (c, c) \<notin> (dep_rel_outside d S)\<^sup>+"
proof
  fix c assume "c \<in> S"
  show "(c, c) \<notin> (dep_rel_outside d S)\<^sup>+"
  proof
    assume "(c, c) \<in> (dep_rel_outside d S)\<^sup>+"
    then obtain e where "(c, e) \<in> dep_rel_outside d S" by (auto dest: tranclD)
    then show False using \<open>c \<in> S\<close> by (simp add: dep_rel_outside_def)
  qed
qed

lemma precedes_append:
  "precedes x c order \<Longrightarrow> precedes x c (order @ ext)"
  by (auto simp: precedes_def takeWhile_append)

lemma precedes_last:
  "c \<notin> set order \<Longrightarrow> x \<in> set order \<Longrightarrow> precedes x c (order @ [c])"
  by (simp add: precedes_def takeWhile_append)

lemma precedes_prefix:
  "precedes x c (p @ ext) \<Longrightarrow> c \<in> set p \<Longrightarrow> precedes x c p"
  by (auto simp: precedes_def takeWhile_append split: if_splits)

lemma topo_inv_Nil: "topo_inv d []"
  by (simp add: topo_inv_def)

lemma topo_inv_append:
  assumes "topo_inv d order" "c \<notin> set order" "set (present_deps d c) \<subseteq> set order"
  shows "topo_inv d (order @ [c])"
  using assms unfolding topo_inv_def
  by (auto intro: precedes_append precedes_last)

lemma topo_inv_prefix:
  assumes "topo_inv d order" "prefix p order"
  shows "topo_inv d p"
proof -
  obtain ext where "order = p @ ext" using assms(2) by (auto simp: prefix_def)
  then show ?thesis using assms(1) unfolding topo_inv_def
    by (auto intro: precedes_prefix)
qed

text \<open>Every call keeps the topological invariant, whether it returns or raises.\<close>

lemma add_init_topo_inv:
  "wf_fsdict d \<Longrightarrow> topo_inv d io \<Longrightarrow> map_of d (name fs) = Some fs \<Longrightarrow>
     topo_inv d (snd (add_init fs d io depth))"
  "wf_fsdict d \<Longrightarrow> topo_inv d io \<Longrightarrow> topo_inv d (snd (add_init_deps ds d io depth))"
proof (induction fs d io depth and ds d io depth rule: add_init_add_init_deps.induct)
  case (1 fs allsets init_order depth)
  show ?case
  proof (cases rule: add_init_cases[where fs=fs and d=allsets and io=init_order and depth=depth])
    case too_deep
    then show ?thesis using "1.prems"(2) by simp
  next
    case already
    then show ?thesis using "1.prems"(2) by simp
  next
    case (loop_raised e io1)
    then show ?thesis using "1.IH"[OF loop_raised(1,2) "1.prems"(1,2)] by simp
  next
    case (assert_fail io1)
    then show ?thesis using "1.IH"[OF assert_fail(1,2) "1.prems"(1,2)] by simp
  next
    case (appended io1)
    have inv1: "topo_inv allsets io1" using "1.IH"[OF appended(1,2) "1.prems"(1,2)] appended(3) by simp
    have "\<forall>x \<in> set (sorted_list_of_fset (python_app_subsystem_dependencies fs)).
            map_of allsets x \<noteq> None \<longrightarrow> x \<in> set io1"
      using add_init_returned(2)[OF "1.prems"(1),
          of "sorted_list_of_fset (python_app_subsystem_dependencies fs)" init_order depth]
        appended(3) by simp
    then have "set (present_deps allsets (name fs)) \<subseteq> set io1"
      using present_deps_stored[OF "1.prems"(3)] by auto
    then show ?thesis using topo_inv_append[OF inv1 appended(4)] appended(5) by simp
  qed
next
  case (2 allsets init_order depth)
  then show ?case by simp
next
  case (3 depname rest allsets init_order depth)
  show ?case
  proof (cases rule: add_init_deps_cases[where d=allsets and x=depname and rest=rest and io=init_order and depth=depth])
    case absent
    then show ?thesis using "3.IH"(1)[OF absent(1) "3.prems"] by auto
  next
    case (dep_raised depfset e io1)
    then show ?thesis
      using "3.IH"(2)[OF dep_raised(1) "3.prems" wf_lookup_stored[OF "3.prems"(1) dep_raised(1)]]
      by simp
  next
    case (dep_returned depfset io1)
    have inv1: "topo_inv allsets io1"
      using "3.IH"(2)[OF dep_returned(1) "3.prems" wf_lookup_stored[OF "3.prems"(1) dep_returned(1)]]
        dep_returned(2) by simp
    show ?thesis
      using "3.IH"(3)[OF dep_returned(1) dep_returned(2)[symmetric] refl "3.prems"(1) inv1]
        dep_returned(3) by simp
  qed
qed

text \<open>Only names of stored feature sets are appended.\<close>

lemma add_init_names:
  "wf_fsdict d \<Longrightarrow> map_of d (name fs) = Some fs \<Longrightarrow>
     set (snd (add_init fs d io depth)) \<subseteq> set io \<union> keys d"
  "wf_fsdict d \<Longrightarrow> set (snd (add_init_deps ds d io depth)) \<subseteq> set io \<union> keys d"
proof (induction fs d io depth and ds d io depth rule: add_init_add_init_deps.induct)
  case (1 fs allsets init_order depth)
  have key: "name fs \<in> keys allsets"
    using "1.prems"(2) by (auto simp: keys_def dest!: map_of_SomeD intro: rev_image_eqI)
  show ?case
    by (cases rule: add_init_cases[where fs=fs and d=allsets and io=init_order and depth=depth])
      (use 1 key in auto)
next
  case (2 allsets init_order depth)
  then show ?case by simp
next
  case (3 depname rest allsets init_order depth)
  show ?case
  proof (cases rule: add_init_deps_cases[where d=allsets and x=depname and rest=rest and io=init_order and depth=depth])
    case absent
    then show ?thesis using "3.IH"(1)[OF absent(1) "3.prems"] by auto
  next
    case (dep_raised depfset e io1)
    then show ?thesis
      using "3.IH"(2)[OF dep_raised(1) "3.prems" wf_lookup_stored[OF "3.prems"(1) dep_raised(1)]]
      by simp
  next
    case (dep_returned depfset io1)
    have "set io1 \<subseteq> set init_order \<union> keys allsets"
      using "3.IH"(2)[OF dep_returned(1) "3.prems" wf_lookup_stored[OF "3.prems"(1) dep_returned(1)]]
        dep_returned(2) by simp
    then show ?thesis
      using "3.IH"(3)[OF dep_returned(1) dep_returned(2)[symmetric] refl "3.prems"(1)]
        dep_returned(3) by auto
  qed
qed

text \<open>A call raises nothing but the failed \<^verbatim>\<open>assert\<close> or the cycle error, naming a stored feature set.\<close>

lemma add_init_raised:
  "wf_fsdict d \<Longrightarrow> map_of d (name fs) = Some fs \<Longrightarrow> fst (add_init fs d io depth) = Raised e \<Longrightarrow>
     e = AssertionError \<or> (\<exists>n \<in> keys d. e = RuntimeError (cycle_message n))"
  "wf_fsdict d \<Longrightarrow> fst (add_init_deps ds d io depth) = Raised e \<Longrightarrow>
     e = AssertionError \<or> (\<exists>n \<in> keys d. e = RuntimeError (cycle_message n))"
proof (induction fs d io depth and ds d io depth rule: add_init_add_init_deps.induct)
  case (1 fs allsets init_order depth)
  have key: "name fs \<in> keys allsets"
    using "1.prems"(2) by (auto simp: keys_def dest!: map_of_SomeD intro: rev_image_eqI)
  show ?case
    by (cases rule: add_init_cases[where fs=fs and d=allsets and io=init_order and depth=depth])
      (use 1 key in auto)
next
  case (2 allsets init_order depth)
  then show ?case by simp
next
  case (3 depname rest allsets init_order depth)
  show ?case
  proof (cases rule: add_init_deps_cases[where d=allsets and x=depname and rest=rest and io=init_order and depth=depth])
    case absent
    then show ?thesis using "3.IH"(1)[OF absent(1) "3.prems"(1)] "3.prems"(2) by auto
  next
    case (dep_raised depfset e1 io1)
    then show ?thesis
      using "3.IH"(2)[OF dep_raised(1) "3.prems"(1) wf_lookup_stored[OF "3.prems"(1) dep_raised(1)]]
        "3.prems"(2) by simp
  next
    case (dep_returned depfset io1)
    show ?thesis
      using "3.IH"(3)[OF dep_returned(1) dep_returned(2)[symmetric] refl "3.prems"(1)]
        dep_returned(3) "3.prems"(2) by simp
  qed
qed

section \<open>Properties of the resolution loop\<close>

lemma dep_rel_outside_empty: "dep_rel_outside d {} = dep_rel d"
  by (simp add: dep_rel_outside_def dep_rel_def)

lemma init_loop_prefix: "prefix io (snd (init_loop items d io))"
proof (induction items arbitrary: io)
  case Nil
  then show ?case by simp
next
  case (Cons it items)
  obtain k fs where it: "it = (k, fs)" by (cases it)
  obtain r io1 where call: "add_init fs d io 0 = (r, io1)" by (cases "add_init fs d io 0")
  have "prefix io io1" using add_init_prefix(1)[of io fs d 0] call by simp
  then show ?case using Cons.IH[of io1] it call
    by (cases r) (auto intro: prefix_order.trans)
qed

lemma init_loop_topo_inv:
  assumes "wf_fsdict d" "set items \<subseteq> set d" "topo_inv d io"
  shows "topo_inv d (snd (init_loop items d io))"
  using assms(2,3)
proof (induction items arbitrary: io)
  case Nil
  then show ?case by simp
next
  case (Cons it items)
  obtain k fs where it: "it = (k, fs)" by (cases it)
  obtain r io1 where call: "add_init fs d io 0 = (r, io1)" by (cases "add_init fs d io 0")
  have stored: "map_of d (name fs) = Some fs"
    using wf_item_stored[OF assms(1), of k fs] Cons.prems(1) it by simp
  have "topo_inv d io1"
    using add_init_topo_inv(1)[OF assms(1) Cons.prems(2) stored, of 0] call by simp
  then show ?case using Cons.IH[of io1] Cons.prems(1) it call by (cases r) auto
qed

lemma init_loop_names:
  assumes "wf_fsdict d" "set items \<subseteq> set d"
  shows "set (snd (init_loop items d io)) \<subseteq> set io \<union> keys d"
  using assms(2)
proof (induction items arbitrary: io)
  case Nil
  then show ?case by simp
next
  case (Cons it items)
  obtain k fs where it: "it = (k, fs)" by (cases it)
  obtain r io1 where call: "add_init fs d io 0 = (r, io1)" by (cases "add_init fs d io 0")
  have stored: "map_of d (name fs) = Some fs"
    using wf_item_stored[OF assms(1), of k fs] Cons.prems(1) it by simp
  have "set io1 \<subseteq> set io \<union> keys d"
    using add_init_names(1)[OF assms(1) stored, of io 0] call by simp
  then show ?case using Cons.IH[of io1] Cons.prems(1) it call by (cases r) auto
qed

lemma init_loop_returned:
  assumes "wf_fsdict d" "fst (init_loop items d io) = Returned"
  shows "\<forall>(k, fs) \<in> set items. name fs \<in> set (snd (init_loop items d io))"
  using assms(2)
proof (induction items arbitrary: io)
  case Nil
  then show ?case by simp
next
  case (Cons it items)
  obtain k fs where it: "it = (k, fs)" by (cases it)
  obtain r io1 where call: "add_init fs d io 0 = (r, io1)" by (cases "add_init fs d io 0")
  have r: "r = Returned" using Cons.prems it call by (cases r) auto
  have "name fs \<in> set io1" using add_init_returned(1)[OF assms(1), of fs io 0] call r by simp
  moreover have "set io1 \<subseteq> set (snd (init_loop items d io1))"
    using init_loop_prefix set_mono_prefix by blast
  moreover have "\<forall>(k, fs) \<in> set items. name fs \<in> set (snd (init_loop items d io1))"
    using Cons.IH[of io1] Cons.prems it call r by simp
  ultimately show ?case using it call r by auto
qed

lemma init_loop_cyclic:
  assumes "wf_fsdict d" "set items \<subseteq> set d" "\<forall>c \<in> set io. (c, c) \<notin> (dep_rel d)\<^sup>+"
  shows "(\<forall>c \<in> set (snd (init_loop items d io)). (c, c) \<notin> (dep_rel d)\<^sup>+) \<and>
         fst (init_loop items d io) \<noteq> Raised AssertionError \<and>
         ((\<exists>(k, fs) \<in> set items. (name fs, name fs) \<in> (dep_rel d)\<^sup>+) \<longrightarrow>
            fst (init_loop items d io) \<noteq> Returned)"
  using assms(2,3)
proof (induction items arbitrary: io)
  case Nil
  then show ?case by simp
next
  case (Cons it items)
  obtain k fs where it: "it = (k, fs)" by (cases it)
  obtain r io1 where call: "add_init fs d io 0 = (r, io1)" by (cases "add_init fs d io 0")
  have stored: "map_of d (name fs) = Some fs"
    using wf_item_stored[OF assms(1), of k fs] Cons.prems(1) it by simp
  have inv: "\<forall>c \<in> set io. (c, c) \<notin> (dep_rel_outside d {})\<^sup>+"
    using Cons.prems(2) by (simp add: dep_rel_outside_empty)
  have a: "(\<forall>c \<in> set io1. (c, c) \<notin> (dep_rel d)\<^sup>+) \<and>
           ((name fs, name fs) \<in> (dep_rel d)\<^sup>+ \<longrightarrow> r \<noteq> Returned)"
    using add_init_cyclic(1)[OF assms(1) empty_subsetI inv stored, of 0] call
    by (simp add: dep_rel_outside_empty)
  have b: "r \<noteq> Raised AssertionError"
    using add_init_no_assertion_error(1)[OF assms(1) empty_subsetI inv stored, of 0] call by simp
  show ?case
  proof (cases r)
    case Returned
    then show ?thesis using Cons.IH[of io1] Cons.prems(1) a it call by auto
  next
    case (Raised e)
    then show ?thesis using a b it call by auto
  qed
qed

lemma init_loop_raised:
  assumes "wf_fsdict d" "set items \<subseteq> set d" "fst (init_loop items d io) = Raised e"
  shows "e = AssertionError \<or> (\<exists>n \<in> keys d. e = RuntimeError (cycle_message n))"
  using assms(2,3)
proof (induction items arbitrary: io)
  case Nil
  then show ?case by simp
next
  case (Cons it items)
  obtain k fs where it: "it = (k, fs)" by (cases it)
  obtain r io1 where call: "add_init fs d io 0 = (r, io1)" by (cases "add_init fs d io 0")
  have stored: "map_of d (name fs) = Some fs"
    using wf_item_stored[OF assms(1), of k fs] Cons.prems(1) it by simp
  show ?case
  proof (cases r)
    case Returned
    then show ?thesis using Cons.IH[of io1] Cons.prems it call by auto
  next
    case (Raised e1)
    then have "e1 = e" using Cons.prems(2) it call by simp
    then show ?thesis using add_init_raised(1)[OF assms(1) stored, of io 0 e] call Raised by simp
  qed
qed

lemma resolve_items: "set (sort_key fst d) \<subseteq> set d"
  by simp

section \<open>Resolution depends on the mapping only\<close>

lemma add_init_map_of_cong:
  "map_of d = map_of d2 \<Longrightarrow> add_init fs d io depth = add_init fs d2 io depth"
  "map_of d = map_of d2 \<Longrightarrow> add_init_deps ds d io depth = add_init_deps ds d2 io depth"
proof (induction fs d io depth and ds d io depth rule: add_init_add_init_deps.induct)
  case (1 fs allsets init_order depth)
  then show ?case by (simp add: add_init.simps[of fs])
next
  case (2 allsets init_order depth)
  then show ?case by simp
next
  case (3 depname rest allsets init_order depth)
  show ?case
  proof (cases "map_of allsets depname")
    case None
    then show ?thesis using 3 by simp
  next
    case (Some depfset)
    have a: "add_init depfset allsets init_order (depth + 1) = add_init depfset d2 init_order (depth + 1)"
      using "3.IH"(2)[OF Some "3.prems"] .
    obtain r io1 where call: "add_init depfset allsets init_order (depth + 1) = (r, io1)"
      by (cases "add_init depfset allsets init_order (depth + 1)")
    have call2: "add_init depfset d2 init_order (depth + 1) = (r, io1)" using a call by simp
    have Some2: "map_of d2 depname = Some depfset" using Some "3.prems" by simp
    show ?thesis
    proof (cases r)
      case Returned
      have "add_init_deps rest allsets io1 depth = add_init_deps rest d2 io1 depth"
        using "3.IH"(3)[OF Some call[symmetric] Returned "3.prems"] .
      then show ?thesis by (simp add: Some Some2 call call2 Returned)
    next
      case (Raised e)
      then show ?thesis by (simp add: Some Some2 call call2)
    qed
  qed
qed

lemma init_loop_map_of_cong:
  "map_of d = map_of d2 \<Longrightarrow> init_loop items d io = init_loop items d2 io"
proof (induction items arbitrary: io)
  case Nil
  then show ?case by simp
next
  case (Cons it items)
  then show ?case
    by (cases it) (simp add: add_init_map_of_cong(1)[OF Cons.prems] split: prod.splits outcome.splits)
qed

lemma sorted_items_unique:
  assumes "distinct (map fst d)" "distinct (map fst d2)" "map_of d = map_of d2"
  shows "sort_key fst d = sort_key fst d2"
proof -
  have sets: "set d = set d2" using assms map_of_inject_set by blast
  have inj: "inj_on fst (set d)" using assms(1) by (simp add: distinct_map)
  show ?thesis
  proof (rule map_sorted_distinct_set_unique[where f = fst])
    show "inj_on fst (set (sort_key fst d) \<union> set (sort_key fst d2))" using inj sets by simp
    show "sorted (map fst (sort_key fst d))" by simp
    show "distinct (map fst (sort_key fst d))" using assms(1) by (simp add: distinct_map)
    show "sorted (map fst (sort_key fst d2))" by simp
    show "distinct (map fst (sort_key fst d2))" using assms(2) by (simp add: distinct_map)
    show "set (sort_key fst d) = set (sort_key fst d2)" using sets by simp
  qed
qed

section \<open>Absent dependency names\<close>

lemma sorted_list_of_fset_ffilter:
  "sorted_list_of_fset (ffilter P A) = filter P (sorted_list_of_fset A)"
proof (rule sorted_distinct_set_unique)
  show "sorted (sorted_list_of_fset (ffilter P A))" by (simp add: sorted_list_of_fset.rep_eq)
  show "distinct (sorted_list_of_fset (ffilter P A))" by (simp add: sorted_list_of_fset.rep_eq)
  show "sorted (filter P (sorted_list_of_fset A))"
    by (simp add: sorted_list_of_fset.rep_eq sorted_wrt_filter)
  show "distinct (filter P (sorted_list_of_fset A))" by (simp add: sorted_list_of_fset.rep_eq)
  show "set (sorted_list_of_fset (ffilter P A)) = set (filter P (sorted_list_of_fset A))"
    by (auto simp: sorted_list_of_fset.rep_eq)
qed

lemma map_of_drop_absent_deps:
  "map_of (map (\<lambda>(k, fs). (k, drop_absent d0 fs)) d) x = map_option (drop_absent d0) (map_of d x)"
  by (induction d) auto

lemma add_init_drop_absent:
  "add_init (drop_absent d fs) (drop_absent_deps d) io depth = add_init fs d io depth"
  "add_init_deps (filter (\<lambda>x. map_of d x \<noteq> None) ds) (drop_absent_deps d) io depth
     = add_init_deps ds d io depth"
proof (induction fs d io depth and ds d io depth rule: add_init_add_init_deps.induct)
  case (1 fs allsets init_order depth)
  have nm: "name (drop_absent allsets fs) = name fs" by (simp add: drop_absent_def)
  have deps: "sorted_list_of_fset (python_app_subsystem_dependencies (drop_absent allsets fs))
      = filter (\<lambda>x. map_of allsets x \<noteq> None) (sorted_list_of_fset (python_app_subsystem_dependencies fs))"
    by (simp add: drop_absent_def sorted_list_of_fset_ffilter)
  show ?case
  proof (cases "depth > 10 \<or> name fs \<in> set init_order")
    case True
    then show ?thesis by (auto simp: add_init.simps[of _ _ init_order depth] nm)
  next
    case False
    then have ih: "add_init_deps
        (filter (\<lambda>x. map_of allsets x \<noteq> None)
           (sorted_list_of_fset (python_app_subsystem_dependencies fs)))
        (drop_absent_deps allsets) init_order depth
        = add_init_deps (sorted_list_of_fset (python_app_subsystem_dependencies fs))
            allsets init_order depth"
      using "1.IH" by simp
    obtain r io1 where loop: "add_init_deps (sorted_list_of_fset (python_app_subsystem_dependencies fs))
            allsets init_order depth = (r, io1)"
      by (cases "add_init_deps (sorted_list_of_fset (python_app_subsystem_dependencies fs))
            allsets init_order depth")
    have loop2: "add_init_deps
        (sorted_list_of_fset (python_app_subsystem_dependencies (drop_absent allsets fs)))
        (drop_absent_deps allsets) init_order depth = (r, io1)"
      using ih loop by (simp only: deps)
    show ?thesis
      using False
      by (cases r) (simp_all add: add_init.simps[of _ _ init_order depth] nm loop loop2)
  qed
next
  case (2 allsets init_order depth)
  then show ?case by simp
next
  case (3 depname rest allsets init_order depth)
  show ?case
  proof (cases "map_of allsets depname")
    case None
    then show ?thesis using "3.IH"(1) by simp
  next
    case (Some depfset)
    have Some2: "map_of (drop_absent_deps allsets) depname = Some (drop_absent allsets depfset)"
      by (simp add: drop_absent_deps_def map_of_drop_absent_deps Some)
    have a: "add_init (drop_absent allsets depfset) (drop_absent_deps allsets) init_order (depth + 1)
        = add_init depfset allsets init_order (depth + 1)"
      using "3.IH"(2)[OF Some] .
    obtain r io1 where call: "add_init depfset allsets init_order (depth + 1) = (r, io1)"
      by (cases "add_init depfset allsets init_order (depth + 1)")
    show ?thesis
    proof (cases r)
      case Returned
      have "add_init_deps (filter (\<lambda>x. map_of allsets x \<noteq> None) rest) (drop_absent_deps allsets) io1 depth
          = add_init_deps rest allsets io1 depth"
        using "3.IH"(3)[OF Some call[symmetric] Returned] .
      then show ?thesis by (simp add: Some Some2 a call Returned)
    next
      case (Raised e)
      then show ?thesis by (simp add: Some Some2 a call)
    qed
  qed
qed

lemma init_loop_drop_absent:
  "init_loop (map (\<lambda>(k, fs). (k, drop_absent d fs)) items) (drop_absent_deps d) io
     = init_loop items d io"
proof (induction items arbitrary: io)
  case Nil
  then show ?case by simp
next
  case (Cons it items)
  then show ?case
    by (cases it) (simp add: add_init_drop_absent(1) split: prod.splits outcome.splits)
qed

lemma insort_key_map_same_key:
  assumes "\<And>y. f (g y) = f y"
  shows "insort_key f (g x) (map g xs) = map g (insort_key f x xs)"
  by (induction xs) (simp_all add: assms)

lemma sort_key_map_same_key:
  assumes "\<And>y. f (g y) = f y"
  shows "sort_key f (map g xs) = map g (sort_key f xs)"
  by (induction xs) (simp_all add: insort_key_map_same_key[where f = f and g = g, OF assms])

lemma resolve_drop_absent: "resolve_init_order (drop_absent_deps d) = resolve_init_order d"
proof -
  have "sort_key fst (drop_absent_deps d) = map (\<lambda>(k, fs). (k, drop_absent d fs)) (sort_key fst d)"
    unfolding drop_absent_deps_def by (rule sort_key_map_same_key) auto
  then show ?thesis
    unfolding resolve_init_order_def by (simp add: init_loop_drop_absent)
qed

section \<open>Cycles and the depth bound\<close>

text \<open>A mapping with a dependency cycle among its keys is always rejected.\<close>

lemma dep_rel_source_key:
  assumes "(c, x) \<in> dep_rel d"
  shows "\<exists>fs. (c, fs) \<in> set d"
proof -
  from assms have "map_of d c \<noteq> None"
    by (cases "map_of d c") (auto simp: dep_rel_def present_deps_def)
  then show ?thesis by (auto dest: map_of_SomeD)
qed

lemma resolve_raises_on_cycle:
  assumes wf: "wf_fsdict d" and cyc: "(c, c) \<in> (dep_rel d)\<^sup>+"
  shows "\<exists>n \<in> keys d. fst (resolve_init_order d) = Raised (RuntimeError (cycle_message n))"
proof -
  obtain e where "(c, e) \<in> dep_rel d" using cyc by (auto dest: tranclD)
  then obtain fs where item: "(c, fs) \<in> set d" using dep_rel_source_key by blast
  have nm: "name fs = c"
    using wf item by (auto simp: wf_fsdict_def names_match_def list_all_iff)
  have "\<exists>(k, fs) \<in> set (sort_key fst d). (name fs, name fs) \<in> (dep_rel d)\<^sup>+"
    using item nm cyc by auto
  then have a: "fst (init_loop (sort_key fst d) d []) \<noteq> Raised AssertionError"
    and b: "fst (init_loop (sort_key fst d) d []) \<noteq> Returned"
    using init_loop_cyclic[OF wf resolve_items, of "[]"] by auto
  obtain err where err: "fst (init_loop (sort_key fst d) d []) = Raised err"
    using b by (cases "fst (init_loop (sort_key fst d) d [])") auto
  show ?thesis
    using init_loop_raised[OF wf resolve_items err] a err
    by (auto simp: resolve_init_order_def)
qed

lemma acyclic_if_increasing:
  fixes r :: "('a::order \<times> 'a) set"
  assumes "\<And>c x. (c, x) \<in> r \<Longrightarrow> c < x"
  shows "acyclic r"
proof -
  have "c < x" if "(c, x) \<in> r\<^sup>+" for c x
    using that by (induction rule: trancl_induct) (auto dest: assms)
  then show ?thesis by (auto simp: acyclic_def)
qed

lemma chain12_acyclic: "acyclic (dep_rel chain12)"
proof (rule acyclic_if_increasing)
  fix c x
  assume "(c, x) \<in> dep_rel chain12"
  then show "c < x"
    by (auto simp: dep_rel_def present_deps_def chain12_def feature_set_def split: if_splits)
qed

section \<open>Mappings with short dependency chains\<close>

text \<open>
  When no chain of present dependencies has more than 10 steps, the depth bound is never
  hit: resolution returns a permutation of the keys with every present dependency before
  its dependent.
\<close>

lemma chain_le_dep:
  assumes "chain_le d (nat (10 - depth)) c" "x \<in> set (present_deps d c)" "depth \<le> 10"
  shows "depth < 10 \<and> chain_le d (nat (9 - depth)) x"
proof (cases "depth = 10")
  case True
  then show ?thesis using assms by simp
next
  case False
  then have lt: "depth < 10" using assms(3) by simp
  then have "nat (10 - depth) = Suc (nat (9 - depth))" by simp
  then have "list_all (chain_le d (nat (9 - depth))) (present_deps d c)"
    using assms(1) by simp
  then show ?thesis using assms(2) lt by (simp add: list_all_iff)
qed

lemma add_init_short_chain:
  "wf_fsdict d \<Longrightarrow> map_of d (name fs) = Some fs \<Longrightarrow> depth \<le> 10 \<Longrightarrow>
     chain_le d (nat (10 - depth)) (name fs) \<Longrightarrow>
     fst (add_init fs d io depth) = Returned \<or> fst (add_init fs d io depth) = Raised AssertionError"
  "wf_fsdict d \<Longrightarrow>
     \<forall>x \<in> set ds. map_of d x \<noteq> None \<longrightarrow> depth < 10 \<and> chain_le d (nat (9 - depth)) x \<Longrightarrow>
     fst (add_init_deps ds d io depth) = Returned \<or>
     fst (add_init_deps ds d io depth) = Raised AssertionError"
proof (induction fs d io depth and ds d io depth rule: add_init_add_init_deps.induct)
  case (1 fs allsets init_order depth)
  have deps: "\<forall>x \<in> set (sorted_list_of_fset (python_app_subsystem_dependencies fs)).
      map_of allsets x \<noteq> None \<longrightarrow> depth < 10 \<and> chain_le allsets (nat (9 - depth)) x"
    using chain_le_dep[OF "1.prems"(4) _ "1.prems"(3)] present_deps_stored[OF "1.prems"(2)]
    by auto
  show ?case
  proof (cases rule: add_init_cases[where fs=fs and d=allsets and io=init_order and depth=depth])
    case too_deep
    then show ?thesis using "1.prems"(3) by simp
  next
    case already
    then show ?thesis by simp
  next
    case (loop_raised e io1)
    then show ?thesis using "1.IH"[OF loop_raised(1,2) "1.prems"(1) deps] by simp
  next
    case (assert_fail io1)
    then show ?thesis by simp
  next
    case (appended io1)
    then show ?thesis by simp
  qed
next
  case (2 allsets init_order depth)
  then show ?case by simp
next
  case (3 depname rest allsets init_order depth)
  have rest: "\<forall>x \<in> set rest. map_of allsets x \<noteq> None \<longrightarrow>
      depth < 10 \<and> chain_le allsets (nat (9 - depth)) x"
    using "3.prems"(2) by simp
  show ?case
  proof (cases rule: add_init_deps_cases[where d=allsets and x=depname and rest=rest and io=init_order and depth=depth])
    case absent
    then show ?thesis using "3.IH"(1)[OF absent(1) "3.prems"(1) rest] by simp
  next
    case (dep_raised depfset e io1)
    have nm: "name depfset = depname" using wf_lookup_name[OF "3.prems"(1) dep_raised(1)] .
    have c: "depth + 1 \<le> 10" "chain_le allsets (nat (10 - (depth + 1))) (name depfset)"
      using "3.prems"(2) dep_raised(1) nm by (simp_all add: algebra_simps)
    show ?thesis
      using "3.IH"(2)[OF dep_raised(1) "3.prems"(1)
          wf_lookup_stored[OF "3.prems"(1) dep_raised(1)] c] dep_raised(2,3)
      by simp
  next
    case (dep_returned depfset io1)
    show ?thesis
      using "3.IH"(3)[OF dep_returned(1) dep_returned(2)[symmetric] refl "3.prems"(1) rest]
        dep_returned(3) by simp
  qed
qed

lemma init_loop_short_chains:
  assumes wf: "wf_fsdict d" and items: "set items \<subseteq> set d"
    and short: "\<forall>(k, fs) \<in> set items. chain_le d 10 (name fs)"
  shows "fst (init_loop items d io) = Returned"
  using items short
proof (induction items arbitrary: io)
  case Nil
  then show ?case by simp
next
  case (Cons it items)
  obtain k fs where it: "it = (k, fs)" by (cases it)
  obtain r io1 where call: "add_init fs d io 0 = (r, io1)" by (cases "add_init fs d io 0")
  have stored: "map_of d (name fs) = Some fs"
    using wf_item_stored[OF wf, of k fs] Cons.prems(1) it by simp
  have "chain_le d (nat (10 - 0)) (name fs)" using Cons.prems(2) it by simp
  then have "r = Returned \<or> r = Raised AssertionError"
    using add_init_short_chain(1)[OF wf stored, of 0 io] call by simp
  moreover have "r \<noteq> Raised AssertionError"
    using add_init_no_assertion_error(1)[OF wf subset_refl no_cycle_through_listed stored, of io 0]
      call by simp
  ultimately have "r = Returned" by simp
  then show ?case using Cons.IH[of io1] Cons.prems it call by simp
qed

lemma resolve_short_chains:
  assumes wf: "wf_fsdict d" and short: "\<forall>k \<in> keys d. chain_le d 10 k"
  shows "\<exists>order. resolve_init_order d = (Returned, order) \<and> distinct order \<and>
           set order = keys d \<and>
           (\<forall>c \<in> keys d. \<forall>x \<in> set (present_deps d c). precedes x c order)"
proof -
  have nm: "name fs = k" if "(k, fs) \<in> set d" for k fs
    using wf that by (auto simp: wf_fsdict_def names_match_def list_all_iff)
  have short_items: "\<forall>(k, fs) \<in> set (sort_key fst d). chain_le d 10 (name fs)"
    using short nm by (auto simp: keys_def intro: rev_image_eqI)
  obtain r order where res: "init_loop (sort_key fst d) d [] = (r, order)"
    by (cases "init_loop (sort_key fst d) d []")
  have r: "r = Returned"
    using init_loop_short_chains[OF wf resolve_items short_items, of "[]"] res by simp
  have inv: "topo_inv d order"
    using init_loop_topo_inv[OF wf resolve_items topo_inv_Nil] res by simp
  have sub: "set order \<subseteq> keys d"
    using init_loop_names[OF wf resolve_items, of "[]"] res by simp
  have "\<forall>(k, fs) \<in> set (sort_key fst d). name fs \<in> set order"
    using init_loop_returned[OF wf, of "sort_key fst d" "[]"] res r by simp
  then have sup: "keys d \<subseteq> set order" using nm by (auto simp: keys_def)
  show ?thesis
    using res r inv sub sup unfolding resolve_init_order_def topo_inv_def by auto
qed

lemma resolve_short_chains_example:
  "wf_fsdict spec_scenario \<and> (\<forall>k \<in> keys spec_scenario. chain_le spec_scenario 10 k) \<and>
   resolve_init_order spec_scenario = (Returned, [''base'', ''scene_v1'', ''ui''])"
  by code_simp

section \<open>Rewriting a section twice\<close>

lemma rewrite_kept_again:
  assumes c: "c \<noteq> []" "e \<notin> set c" and ok: "rewrite d b e c True = Inr d1"
  shows "rewrite d1 b e c True = Inr d1"
proof -
  define before where "before = takeWhile (\<lambda>l. l \<noteq> b) d"
  define fromEnd where "fromEnd = dropWhile (\<lambda>l. l \<noteq> e) (tl (dropWhile (\<lambda>l. l \<noteq> b) d))"
  have d1: "d1 = before @ [b] @ c @ [e] @ tl fromEnd"
    using ok unfolding rewrite_def before_def fromEnd_def
    by (simp add: Let_def split: if_splits)
  have nb: "\<forall>x \<in> set before. x \<noteq> b"
    unfolding before_def by (auto dest: set_takeWhileD)
  have tw: "takeWhile (\<lambda>l. l \<noteq> b) d1 = before"
    unfolding d1 using nb by (simp add: takeWhile_append2)
  have dw: "dropWhile (\<lambda>l. l \<noteq> b) d1 = b # c @ [e] @ tl fromEnd"
    unfolding d1 using nb by (simp add: dropWhile_append2)
  have nc: "\<forall>x \<in> set c. x \<noteq> e" using c(2) by auto
  have tw2: "takeWhile (\<lambda>l. l \<noteq> e) (c @ e # tl fromEnd) = c"
    using nc by (simp add: takeWhile_append2)
  have dw2: "dropWhile (\<lambda>l. l \<noteq> e) (c @ e # tl fromEnd) = e # tl fromEnd"
    using nc by (simp add: dropWhile_append2)
  have mem: "b \<in> set d1" "e \<in> set d1" unfolding d1 by simp_all
  show ?thesis
    unfolding rewrite_def using mem c(1)
    by (simp add: Let_def tw dw tw2 dw2) (simp add: d1)
qed

text \<open>With the markers kept, content that holds the end marker, or no line, breaks idempotence too.\<close>

lemma rewrite_not_idempotent_end_in_content:
  "rewrite scenario_document ''BEGIN'' ''END'' [''new'', ''END''] True
     = Inr [''X'', ''BEGIN'', ''new'', ''END'', ''END'', ''Y''] \<and>
   rewrite_twice scenario_document ''BEGIN'' ''END'' [''new'', ''END''] True
     = Inr [''X'', ''BEGIN'', ''new'', ''END'', ''END'', ''END'', ''Y'']"
  by (simp add: rewrite_def rewrite_twice_def scenario_document_def)

lemma rewrite_not_idempotent_empty_content:
  "rewrite scenario_document ''BEGIN'' ''END'' [] True = Inr [''X'', ''BEGIN'', ''END'', ''Y''] \<and>
   rewrite_twice scenario_document ''BEGIN'' ''END'' [] True = Inl MarkerOrderError"
  by (simp add: rewrite_def rewrite_twice_def scenario_document_def)

section \<open>The property text\<close>






section \<open>Claims about the partially built order, the assertion and termination\<close>

text \<open>
  Claim C8. At every point of init-order resolution, also when the cycle error is raised,
  the list built so far has no name twice and lists every present dependency of a listed
  name before that name. The list only ever grows at its end, so the lists that occur
  during a run are prefixes of the list the run ends with, on either path; the theorem
  gives the invariant for every such prefix.
\<close>

theorem init_order_topological_invariant:
  assumes "wf_fsdict d" "prefix p (snd (resolve_init_order d))"
  shows "topo_inv d p"
proof -
  have "topo_inv d (snd (resolve_init_order d))"
    unfolding resolve_init_order_def
    by (rule init_loop_topo_inv[OF assms(1) resolve_items topo_inv_Nil])
  then show ?thesis using assms(2) by (rule topo_inv_prefix)
qed

theorem init_order_topological_invariant_witness:
  "wf_fsdict cycle_with_leaf \<and>
   resolve_init_order cycle_with_leaf =
     (Raised (RuntimeError (cycle_message ''base'')), [''base'']) \<and>
   prefix [''base''] (snd (resolve_init_order cycle_with_leaf)) \<and>
   topo_inv cycle_with_leaf [''base'']"
proof -
  have wf: "wf_fsdict cycle_with_leaf" by code_simp
  have res: "resolve_init_order cycle_with_leaf =
      (Raised (RuntimeError (cycle_message ''base'')), [''base''])"
    by code_simp
  have pre: "prefix [''base''] (snd (resolve_init_order cycle_with_leaf))"
    by (simp add: res)
  show ?thesis
    using wf res pre init_order_topological_invariant[OF wf pre] by simp
qed

text \<open>
  Claim C9. The \<^verbatim>\<open>assert fset.name not in init_order\<close> of \<^verbatim>\<open>_add_init\<close> holds whenever
  it is reached: no call on a feature set of the mapping, from any list and at any depth,
  ends with the assertion error. A name is appended during the loop over the dependencies
  only by a call on a feature set that depends, directly or not, on the one being visited;
  such a call lies on a cycle and never returns.
\<close>

theorem add_init_assertion_valid:
  assumes "wf_fsdict d" "map_of d (name fs) = Some fs"
  shows "fst (add_init fs d init_order depth) \<noteq> Raised AssertionError"
  using add_init_no_assertion_error(1)[OF assms(1) subset_refl no_cycle_through_listed assms(2)] .

theorem add_init_assertion_valid_witness:
  "wf_fsdict two_cycle \<and>
   map_of two_cycle (name (snd (feature_set ''a'' [''b'']))) = Some (snd (feature_set ''a'' [''b''])) \<and>
   fst (add_init (snd (feature_set ''a'' [''b''])) two_cycle [] 0) \<noteq> Raised AssertionError"
proof -
  have wf: "wf_fsdict two_cycle" by code_simp
  have st: "map_of two_cycle (name (snd (feature_set ''a'' [''b''])))
      = Some (snd (feature_set ''a'' [''b'']))"
    by code_simp
  show ?thesis using wf st add_init_assertion_valid[OF wf st, of "[]" 0] by simp
qed

text \<open>
  Claim C10. \<^verbatim>\<open>_add_init\<close> terminates on every input. The domain predicate of the
  definition holds of every argument of \<open>add_init\<close> and of its loop: every chain of nested
  calls is finite, whatever the mapping. A call with depth above 10 raises at once and
  leaves the list alone; the loop calls \<open>add_init\<close> with the depth plus one, and \<open>add_init\<close>
  makes a call only when its depth is at most 10.
\<close>

theorem add_init_terminates:
  "add_init_add_init_deps_dom (Inl (fs, d, init_order, depth)) \<and>
   add_init_add_init_deps_dom (Inr (ds, d, init_order, depth)) \<and>
   (depth > 10 \<longrightarrow>
      add_init fs d init_order depth =
        (Raised (RuntimeError (cycle_message (name fs))), init_order)) \<and>
   (\<forall>fs1 d1 io1 depth1.
      add_init_add_init_deps_rel (Inl (fs1, d1, io1, depth1)) (Inr (ds, d, init_order, depth)) \<longrightarrow>
        depth1 = depth + 1) \<and>
   (\<forall>y. add_init_add_init_deps_rel y (Inl (fs, d, init_order, depth)) \<longrightarrow> depth \<le> 10)"
proof -
  have total: "All add_init_add_init_deps_dom"
    by (relation "measures
          [\<lambda>x. case x of
             Inl (fs, allsets, init_order, depth) \<Rightarrow>
               if depth > 10 then 0 else 2 * nat (11 - depth) + 2
           | Inr (ds, allsets, init_order, depth) \<Rightarrow> 2 * nat (11 - depth) + 1,
           \<lambda>x. case x of Inl _ \<Rightarrow> 0 | Inr (ds, _) \<Rightarrow> length ds]")
      auto
  have deep: "depth > 10 \<longrightarrow>
      add_init fs d init_order depth =
        (Raised (RuntimeError (cycle_message (name fs))), init_order)"
    by (simp add: add_init.simps)
  have step: "depth1 = depth + 1"
    if "add_init_add_init_deps_rel (Inl (fs1, d1, io1, depth1)) (Inr (ds, d, init_order, depth))"
    for fs1 d1 io1 depth1
    using that by (cases rule: add_init_add_init_deps_rel.cases) simp_all
  have bound: "depth \<le> 10"
    if "add_init_add_init_deps_rel y (Inl (fs, d, init_order, depth))" for y
    using that by (cases rule: add_init_add_init_deps_rel.cases) simp_all
  show ?thesis using total deep step bound by blast
qed

theorem add_init_terminates_witness:
  "(11::int) > 10 \<and>
   add_init (snd (feature_set ''a'' [''b''])) two_cycle [] 11 =
     (Raised (RuntimeError (cycle_message ''a'')), []) \<and>
   add_init_add_init_deps_rel
     (Inl (snd (feature_set ''b'' [''a'']), two_cycle, [], 0 + 1)) (Inr ([''b''], two_cycle, [], 0)) \<and>
   add_init_add_init_deps_dom (Inl (snd (feature_set ''a'' [''b'']), two_cycle, [], 0))"
proof -
  have lookup: "map_of two_cycle ''b'' = Some (snd (feature_set ''b'' [''a'']))"
    by (simp add: two_cycle_def feature_set_def)
  have call: "add_init_add_init_deps_rel
      (Inl (snd (feature_set ''b'' [''a'']), two_cycle, [], 0 + 1)) (Inr ([''b''], two_cycle, [], 0))"
    by (rule add_init_add_init_deps_rel.intros(3)[OF lookup])
  have nm: "name (snd (feature_set ''a'' [''b''])) = ''a''" by (simp add: feature_set_def)
  show ?thesis
    using add_init_terminates[of "snd (feature_set ''a'' [''b''])" two_cycle "[]" 11 "[''b'']"]
      add_init_terminates[of "snd (feature_set ''a'' [''b''])" two_cycle "[]" 0 "[''b'']"]
      call nm
    by simp
qed

section \<open>Claims about determinism and absent dependencies\<close>

text \<open>
  Claim C3. Init-order resolution is deterministic: two dicts that are equal as mappings,
  whatever the order in which their items were inserted, resolve to the same outcome and the
  same sequence. The items are visited in the order of their names, and the dependencies of
  a feature set, a set, in the order of their names.
\<close>

theorem resolve_init_order_deterministic:
  assumes "distinct (map fst d)" "distinct (map fst d2)" "map_of d = map_of d2"
  shows "resolve_init_order d = resolve_init_order d2"
  unfolding resolve_init_order_def
  using sorted_items_unique[OF assms] init_loop_map_of_cong[OF assms(3)] by simp

theorem resolve_init_order_deterministic_witness:
  "distinct (map fst spec_scenario) \<and> distinct (map fst spec_scenario_reordered) \<and>
   map_of spec_scenario = map_of spec_scenario_reordered \<and>
   spec_scenario \<noteq> spec_scenario_reordered \<and>
   resolve_init_order spec_scenario = resolve_init_order spec_scenario_reordered \<and>
   resolve_init_order spec_scenario = (Returned, [''base'', ''scene_v1'', ''ui''])"
proof -
  have d1: "distinct (map fst spec_scenario)" by code_simp
  have d2: "distinct (map fst spec_scenario_reordered)" by code_simp
  have "set spec_scenario = set spec_scenario_reordered"
    by (auto simp: spec_scenario_def spec_scenario_reordered_def)
  then have m: "map_of spec_scenario = map_of spec_scenario_reordered"
    using d1 d2 map_of_inject_set by blast
  have ne: "spec_scenario \<noteq> spec_scenario_reordered"
    by (simp add: spec_scenario_def spec_scenario_reordered_def feature_set_def)
  have res: "resolve_init_order spec_scenario = (Returned, [''base'', ''scene_v1'', ''ui''])"
    by code_simp
  show ?thesis using d1 d2 m ne res resolve_init_order_deterministic[OF d1 d2 m] by simp
qed

text \<open>
  Claim C4. A dependency name that is not a key of the mapping is ignored: resolution gives
  the same outcome and the same sequence as on the mapping with all such names removed, so
  an absent name is never the cause of an error; and only keys of the mapping appear in the
  sequence.
\<close>

theorem absent_dependencies_ignored:
  assumes "wf_fsdict d"
  shows "resolve_init_order (drop_absent_deps d) = resolve_init_order d \<and>
         set (snd (resolve_init_order d)) \<subseteq> keys d"
proof -
  have "set (snd (resolve_init_order d)) \<subseteq> set [] \<union> keys d"
    unfolding resolve_init_order_def by (rule init_loop_names[OF assms resolve_items])
  then show ?thesis using resolve_drop_absent by simp
qed

theorem absent_dependencies_ignored_witness:
  "wf_fsdict with_absent_dep \<and>
   drop_absent_deps with_absent_dep = spec_scenario \<and>
   resolve_init_order with_absent_dep = (Returned, [''base'', ''scene_v1'', ''ui'']) \<and>
   resolve_init_order (drop_absent_deps with_absent_dep) = resolve_init_order with_absent_dep \<and>
   set (snd (resolve_init_order with_absent_dep)) \<subseteq> keys with_absent_dep"
proof -
  have wf: "wf_fsdict with_absent_dep" by code_simp
  have dr: "drop_absent_deps with_absent_dep = spec_scenario" by code_simp
  have res: "resolve_init_order with_absent_dep = (Returned, [''base'', ''scene_v1'', ''ui''])"
    by code_simp
  show ?thesis using wf dr res absent_dependencies_ignored[OF wf] by simp
qed

section \<open>Claims about acyclic mappings and about the cycle error\<close>

text \<open>
  Claim C1. For every mapping whose dependency relation among its keys is acyclic,
  resolution returns a permutation of the keys with every present dependency before its
  dependent. The code does not do this: \<^verbatim>\<open>_add_init\<close> takes a depth above 10 for a cycle
  ("If we hit max recursion, we've got a dependency cycle"), and a chain of twelve feature
  sets, which has no cycle, reaches depth 11. The theorem evaluates resolution on that
  chain: it raises the cycle error, naming \<^verbatim>\<open>k11\<close>, and returns no sequence. Where no
  chain of present dependencies has more than 10 steps, resolution does what the claim says
  (\<open>resolve_short_chains\<close>).
\<close>

theorem acyclic_chain_rejected:
  "wf_fsdict chain12 \<and> acyclic (dep_rel chain12) \<and>
   resolve_init_order chain12 = (Raised (RuntimeError (cycle_message ''k11'')), [])"
proof -
  have wf: "wf_fsdict chain12" by code_simp
  have res: "resolve_init_order chain12 = (Raised (RuntimeError (cycle_message ''k11'')), [])"
    by code_simp
  show ?thesis using wf res chain12_acyclic by simp
qed

text \<open>
  Claim C2. For every mapping with a two-element cycle among its keys, resolution raises the
  cycle error, and the message names a feature set of the cycle. Resolution does raise
  (\<open>resolve_raises_on_cycle\<close>), but the feature set it names is the one visited at depth 11,
  on the cycle or not. In \<^verbatim>\<open>{base: [], scene_v1: [base, ui], ui: [scene_v1]}\<close> the cycle is
  \<^verbatim>\<open>scene_v1\<close>, \<^verbatim>\<open>ui\<close>; the message reads "involving feature set 'base'", and \<^verbatim>\<open>base\<close>
  has no dependency at all.
\<close>

theorem cycle_error_names_leaf:
  "wf_fsdict cycle_with_leaf \<and>
   (''scene_v1'', ''ui'') \<in> dep_rel cycle_with_leaf \<and>
   (''ui'', ''scene_v1'') \<in> dep_rel cycle_with_leaf \<and>
   resolve_init_order cycle_with_leaf =
     (Raised (RuntimeError (cycle_message ''base'')), [''base'']) \<and>
   present_deps cycle_with_leaf ''base'' = [] \<and>
   (''base'', ''base'') \<notin> (dep_rel cycle_with_leaf)\<^sup>+"
proof -
  have wf: "wf_fsdict cycle_with_leaf" by code_simp
  have e1: "(''scene_v1'', ''ui'') \<in> dep_rel cycle_with_leaf"
    by (simp add: dep_rel_def present_deps_def cycle_with_leaf_def feature_set_def)
  have e2: "(''ui'', ''scene_v1'') \<in> dep_rel cycle_with_leaf"
    by (simp add: dep_rel_def present_deps_def cycle_with_leaf_def feature_set_def)
  have res: "resolve_init_order cycle_with_leaf =
      (Raised (RuntimeError (cycle_message ''base'')), [''base''])"
    by code_simp
  have leaf: "present_deps cycle_with_leaf ''base'' = []"
    by code_simp
  have "(''base'', ''base'') \<notin> (dep_rel cycle_with_leaf)\<^sup>+"
  proof
    assume "(''base'', ''base'') \<in> (dep_rel cycle_with_leaf)\<^sup>+"
    then obtain e where "(''base'', e) \<in> dep_rel cycle_with_leaf" by (auto dest: tranclD)
    then show False using leaf by (simp add: dep_rel_def)
  qed
  then show ?thesis using wf e1 e2 res leaf by simp
qed

section \<open>Claim about the section rewriter\<close>

text \<open>
  Claim C7. The rewrite is idempotent for any valid document in which each marker occurs
  exactly once, any content and any flag. As stated this fails: without \<^verbatim>\<open>keepMarkers\<close> the
  first rewrite consumes the markers, and the second one does not find them.
\<close>

theorem rewrite_not_idempotent_without_markers:
  "count_list scenario_document ''BEGIN'' = 1 \<and> count_list scenario_document ''END'' = 1 \<and>
   rewrite scenario_document ''BEGIN'' ''END'' [''new''] False = Inr [''X'', ''new'', ''Y''] \<and>
   rewrite_twice scenario_document ''BEGIN'' ''END'' [''new''] False = Inl MarkerNotFoundError"
  by (simp add: rewrite_def rewrite_twice_def scenario_document_def)

text \<open>
  Claim C7, amended. With \<^verbatim>\<open>keepMarkers\<close> true and a content that has at least one line and
  no line equal to the end marker, rewriting twice gives what rewriting once gives, for every
  document and markers (an error when the document is not valid, the same document
  otherwise).
\<close>

theorem rewrite_idempotent_kept_markers:
  assumes "c \<noteq> []" "e \<notin> set c"
  shows "rewrite_twice d b e c True = rewrite d b e c True"
proof (cases "rewrite d b e c True")
  case (Inl err)
  then show ?thesis by (simp add: rewrite_twice_def)
next
  case (Inr d1)
  then show ?thesis using rewrite_kept_again[OF assms Inr] by (simp add: rewrite_twice_def)
qed

theorem rewrite_idempotent_kept_markers_witness:
  "[''new''] \<noteq> [] \<and> ''END'' \<notin> set [''new''] \<and>
   rewrite scenario_document ''BEGIN'' ''END'' [''new''] True
     = Inr [''X'', ''BEGIN'', ''new'', ''END'', ''Y''] \<and>
   rewrite_twice scenario_document ''BEGIN'' ''END'' [''new''] True
     = rewrite scenario_document ''BEGIN'' ''END'' [''new''] True"
proof -
  have h1: "[''new''] \<noteq> ([] :: string list)" by simp
  have h2: "''END'' \<notin> set [''new'']" by simp
  have v: "rewrite scenario_document ''BEGIN'' ''END'' [''new''] True
     = Inr [''X'', ''BEGIN'', ''new'', ''END'', ''Y'']"
    by (simp add: rewrite_def scenario_document_def)
  show ?thesis
    using h1 h2 v rewrite_idempotent_kept_markers[OF h1 h2, of scenario_document "''BEGIN''"]
    by simp
qed

section \<open>Claims about generation\<close>



text \<open>
  Claim C6. A run of \<^verbatim>\<open>generate_app_module\<close> that returns has made exactly four calls of
  \<^verbatim>\<open>replace_section\<close>, for the imports, the properties, the creation pokes and the app-mode
  selection, in this order: the first on the existing text, each of the others on what the
  one before returned, and the result is what the last returned. Every call has
  \<^verbatim>\<open>keep_markers=True\<close>, and the text of the third pokes the feature sets in the order of
  init-order resolution.
\<close>

theorem generate_app_module_four_rewrites:
  assumes "snd (generate_app_module ext fsets existing_data) = Inr out"
  shows "\<exists>c1 c2 c3 c4 init_order.
     fst (generate_app_module ext fsets existing_data) = [c1, c2, c3, c4] \<and>
     rs_text c1 = existing_data \<and>
     run_call ext c1 = Inr (rs_text c2) \<and>
     run_call ext c2 = Inr (rs_text c3) \<and>
     run_call ext c3 = Inr (rs_text c4) \<and>
     run_call ext c4 = Inr out \<and>
     rs_keep_markers c1 \<and> rs_keep_markers c2 \<and> rs_keep_markers c3 \<and> rs_keep_markers c4 \<and>
     rs_begin_marker c1 = ''    # __FEATURESET_APP_SUBSYSTEM_IMPORTS_BEGIN__'' @ nl \<and>
     rs_begin_marker c2 = ''    # __FEATURESET_APP_SUBSYSTEM_PROPERTIES_BEGIN__'' @ nl \<and>
     rs_begin_marker c3 = ''        # __FEATURESET_APP_SUBSYSTEM_CREATE_BEGIN__'' @ nl \<and>
     rs_begin_marker c4 = ''            # __DEFAULT_APP_MODE_SELECTION_BEGIN__'' @ nl \<and>
     resolve_init_order (all_ss_fsets fsets) = (Returned, init_order) \<and>
     rs_replace_text c3 =
       textwrap_indent ext
         (info ext @ nl @ nl @ ''# Poke these attrs to create all our subsystems.'' @ nl @
          concat (map (\<lambda>fsetname. ''_ = self.'' @ fsetname @ nl) init_order) @ nl)
         ''        ''"
proof -
  define call1 where "call1 = imports_call ext fsets existing_data"
  obtain out1 where r1: "run_call ext call1 = Inr out1"
    using assms unfolding generate_app_module_def call1_def
    by (cases "run_call ext (imports_call ext fsets existing_data)") (simp_all add: Let_def)
  obtain contents where pc: "properties_contents fsets = Inr contents"
    using assms r1 unfolding generate_app_module_def call1_def
    by (cases "properties_contents fsets") (simp_all add: Let_def)
  define call2 where "call2 = properties_call ext contents out1"
  obtain out2 where r2: "run_call ext call2 = Inr out2"
    using assms r1 pc unfolding generate_app_module_def call1_def call2_def
    by (cases "run_call ext (properties_call ext contents out1)") (simp_all add: Let_def)
  obtain r init_order where res: "resolve_init_order (all_ss_fsets fsets) = (r, init_order)"
    by (cases "resolve_init_order (all_ss_fsets fsets)")
  have ret: "r = Returned"
    using assms r1 pc r2 res unfolding generate_app_module_def call1_def call2_def
    by (cases r) (simp_all add: Let_def)
  define call3 where "call3 = create_call ext init_order out2"
  obtain out3 where r3: "run_call ext call3 = Inr out3"
    using assms r1 pc r2 res ret unfolding generate_app_module_def call1_def call2_def call3_def
    by (cases "run_call ext (create_call ext init_order out2)") (simp_all add: Let_def)
  define call4 where "call4 = app_mode_call ext fsets out3"
  have gen: "generate_app_module ext fsets existing_data =
      ([call1, call2, call3, call4], run_call ext call4)"
    using r1 pc r2 res ret r3
    unfolding generate_app_module_def call1_def call2_def call3_def call4_def
    by (simp add: Let_def)
  have r4: "run_call ext call4 = Inr out" using assms gen by simp
  have t1: "rs_text call1 = existing_data" by (simp add: call1_def imports_call_def Let_def)
  have t2: "rs_text call2 = out1" by (simp add: call2_def properties_call_def Let_def)
  have t3: "rs_text call3 = out2" by (simp add: call3_def create_call_def Let_def)
  have t4: "rs_text call4 = out3" by (simp add: call4_def app_mode_call_def Let_def)
  have k: "rs_keep_markers call1" "rs_keep_markers call2" "rs_keep_markers call3"
    "rs_keep_markers call4"
    by (simp_all add: call1_def call2_def call3_def call4_def imports_call_def
        properties_call_def create_call_def app_mode_call_def Let_def)
  have b: "rs_begin_marker call1 = ''    # __FEATURESET_APP_SUBSYSTEM_IMPORTS_BEGIN__'' @ nl"
    "rs_begin_marker call2 = ''    # __FEATURESET_APP_SUBSYSTEM_PROPERTIES_BEGIN__'' @ nl"
    "rs_begin_marker call3 = ''        # __FEATURESET_APP_SUBSYSTEM_CREATE_BEGIN__'' @ nl"
    "rs_begin_marker call4 = ''            # __DEFAULT_APP_MODE_SELECTION_BEGIN__'' @ nl"
    by (simp_all add: call1_def call2_def call3_def call4_def imports_call_def
        properties_call_def create_call_def app_mode_call_def Let_def)
  have poke: "rs_replace_text call3 =
       textwrap_indent ext
         (info ext @ nl @ nl @ ''# Poke these attrs to create all our subsystems.'' @ nl @
          concat (map (\<lambda>fsetname. ''_ = self.'' @ fsetname @ nl) init_order) @ nl)
         ''        ''"
    by (simp add: call3_def create_call_def poke_contents_def Let_def)
  show ?thesis
    apply (rule exI[of _ call1], rule exI[of _ call2], rule exI[of _ call3],
        rule exI[of _ call4], rule exI[of _ init_order])
    using gen t1 t2 t3 t4 r1 r2 r3 r4 k b poke res ret by simp
qed

theorem generate_app_module_four_rewrites_witness:
  "\<exists>out. snd (generate_app_module stub_externals spec_scenario ''doc'') = Inr out \<and>
     resolve_init_order (all_ss_fsets spec_scenario) = (Returned, [''base'', ''scene_v1'', ''ui'']) \<and>
     (\<exists>c1 c2 c3 c4 init_order.
        fst (generate_app_module stub_externals spec_scenario ''doc'') = [c1, c2, c3, c4] \<and>
        rs_text c1 = ''doc'' \<and>
        run_call stub_externals c1 = Inr (rs_text c2) \<and>
        run_call stub_externals c2 = Inr (rs_text c3) \<and>
        run_call stub_externals c3 = Inr (rs_text c4) \<and>
        run_call stub_externals c4 = Inr out \<and>
        rs_keep_markers c1 \<and> rs_keep_markers c2 \<and> rs_keep_markers c3 \<and> rs_keep_markers c4 \<and>
        resolve_init_order (all_ss_fsets spec_scenario) = (Returned, init_order))"
proof -
  have "\<not> isl (snd (generate_app_module stub_externals spec_scenario ''doc''))"
    by code_simp
  then obtain out where out: "snd (generate_app_module stub_externals spec_scenario ''doc'') = Inr out"
    by (cases "snd (generate_app_module stub_externals spec_scenario ''doc'')") auto
  have res: "resolve_init_order (all_ss_fsets spec_scenario) = (Returned, [''base'', ''scene_v1'', ''ui''])"
    by code_simp
  show ?thesis
    using out res generate_app_module_four_rewrites[OF out] by blast
qed

end

